theory Spec2Isabelle
  imports
    Complex_Main
    "HOL-Library.Multiset"
    "HOL-Library.Product_Lexorder"
    "HOL-Library.List_Lexorder"
    "HOL-Library.Char_ord"
    "HOL-Library.Monad_Syntax"
begin

section \<open>GeoLib::PointVec: the deduplicating point registry\<close>

text \<open>
  The embedding follows the implementation file of \<^verbatim>\<open>PointVec\<close>: the constructor,
  the two \<^verbatim>\<open>push_back\<close> overloads, \<^verbatim>\<open>uniqueInsert\<close>, \<^verbatim>\<open>makePntsUnique\<close> and
  \<^verbatim>\<open>correctNameIDMapping\<close>.

  Conventions.
  \<^item> A \<^verbatim>\<open>std::vector\<close> is a list. \<^verbatim>\<open>operator[]\<close> outside the vector is undefined
    behaviour in C++; the model makes every such access a checked one whose failure is
    the value \<open>None\<close>, so a function that returns \<open>Some\<close> has stayed inside all its
    vectors.
  \<^item> \<^verbatim>\<open>std::size_t\<close> is an unsigned 64-bit integer; the subtractions of the source
    (\<^verbatim>\<open>n_pnts_in_file - 1\<close>, \<^verbatim>\<open>end - 1\<close>, \<^verbatim>\<open>size() - 1\<close>) wrap around.
  \<^item> A point is its coordinate triple; \<^verbatim>\<open>double\<close> is idealised as \<open>real\<close>. Points are
    ordered lexicographically (first x, then y, then z), which is the order of the product type.
  \<^item> The \<^verbatim>\<open>std::map\<close> from names to ids is an association list in iteration order
    (ascending keys).
  \<^item> Warnings written to the log are collected in a list carried by the state.
\<close>

subsection \<open>Vectors and size arithmetic\<close>

definition vec_at :: "'a list \<Rightarrow> nat \<Rightarrow> 'a option" where
  "vec_at xs i = (if i < length xs then Some (xs ! i) else None)"

definition vec_put :: "'a list \<Rightarrow> nat \<Rightarrow> 'a \<Rightarrow> 'a list option" where
  "vec_put xs i v = (if i < length xs then Some (xs[i := v]) else None)"

definition size_t_sub :: "nat \<Rightarrow> nat \<Rightarrow> nat" where
  "size_t_sub a b = (if b \<le> a then a - b else a + 2 ^ 64 - b)"

subsection \<open>Points, distances, bounding box\<close>

type_synonym point = "real \<times> real \<times> real"

text \<open>
  Modelled from the spec: \<^verbatim>\<open>MathLib::maxNormDist\<close> and \<^verbatim>\<open>MathLib::sqrDist\<close>
  (\<^verbatim>\<open>MathTools.h\<close> is not among the sources). The max-norm distance is the greatest absolute
  coordinate-wise difference of two points, the squared distance the sum of the squared
  coordinate differences.
\<close>

fun maxNormDist :: "point \<Rightarrow> point \<Rightarrow> real" where
  "maxNormDist (x0, y0, z0) (x1, y1, z1) = max \<bar>x0 - x1\<bar> (max \<bar>y0 - y1\<bar> \<bar>z0 - z1\<bar>)"

fun sqrDist :: "point \<Rightarrow> point \<Rightarrow> real" where
  "sqrDist (x0, y0, z0) (x1, y1, z1) =
     (x0 - x1) * (x0 - x1) + (y0 - y1) * (y0 - y1) + (z0 - z1) * (z0 - z1)"

text \<open>
  Modelled from the spec: \<^verbatim>\<open>GeoLib::AABB\<close> (its header is not among the sources), an
  axis-aligned box given by its minimum and maximum corner, built from a range of points and
  enlarged by \<^verbatim>\<open>update\<close>. The box of an empty range is never observed: construction of the
  registry from no points does not get past \<^verbatim>\<open>makePntsUnique\<close>.
\<close>

type_synonym aabb = "point \<times> point"

fun AABB_update :: "aabb \<Rightarrow> point \<Rightarrow> aabb" where
  "AABB_update ((x0, y0, z0), (x1, y1, z1)) (x, y, z) =
     ((min x0 x, min y0 y, min z0 z), (max x1 x, max y1 y, max z1 z))"

fun AABB_range :: "point list \<Rightarrow> aabb" where
  "AABB_range [] = ((0, 0, 0), (0, 0, 0))"
| "AABB_range (p # ps) = fold (\<lambda>q b. AABB_update b q) ps (p, p)"

subsection \<open>The sorting primitive\<close>

text \<open>
  Modelled from the spec: \<^verbatim>\<open>BaseLib::Quicksort\<close> (\<^verbatim>\<open>quicksort.h\<close> is not among the
  sources). It sorts one vector by the order of its elements and applies the same exchanges to a
  second vector; it is not stable. The model takes the sort as a parameter working on the zipped
  vectors; \<open>sorts_by_key\<close> is all that is known about it: the result is a rearrangement of the
  input whose keys ascend.
\<close>

definition sorts_by_key :: "(('k::linorder \<times> 'v) list \<Rightarrow> ('k \<times> 'v) list) \<Rightarrow> bool" where
  "sorts_by_key qs \<longleftrightarrow> (\<forall>xs. mset (qs xs) = mset xs \<and> sorted (map fst (qs xs)))"

subsection \<open>makePntsUnique\<close>

text \<open>Lines 126 to 143: the intervals of the sorted vector in which neighbours are within \<open>eps\<close>.\<close>

function find_intervals ::
  "real \<Rightarrow> point list \<Rightarrow> nat \<Rightarrow> nat \<Rightarrow> nat list \<Rightarrow> bool \<Rightarrow> (nat list \<times> bool) option" where
  "find_intervals eps pnt_vec bound k ivs identical =
     (if k < bound then
        (case vec_at pnt_vec (k + 1) of None \<Rightarrow> None | Some a \<Rightarrow>
        (case vec_at pnt_vec k of None \<Rightarrow> None | Some b \<Rightarrow>
           if maxNormDist a b \<le> eps
           then find_intervals eps pnt_vec bound (k + 1)
                  (if \<not> identical then ivs @ [k] else ivs) True
           else find_intervals eps pnt_vec bound (k + 1)
                  (if identical then ivs @ [k + 1] else ivs) False))
      else Some (ivs, identical))"
  by pat_completeness auto
termination
  by (relation "measure (\<lambda>(eps, pnt_vec, bound, k, ivs, identical). bound - k)") auto

declare find_intervals.simps [simp del]

text \<open>Lines 145 to 153: bubble sort of \<open>perm\<close> inside every interval.\<close>

function bubble_inner :: "nat \<Rightarrow> nat \<Rightarrow> nat list \<Rightarrow> nat list option" where
  "bubble_inner bound k perm =
     (if k < bound then
        (case vec_at perm k of None \<Rightarrow> None | Some a \<Rightarrow>
        (case vec_at perm (k + 1) of None \<Rightarrow> None | Some b \<Rightarrow>
           bubble_inner bound (k + 1) (if a > b then perm[k := b, k + 1 := a] else perm)))
      else Some perm)"
  by pat_completeness auto
termination
  by (relation "measure (\<lambda>(bound, k, perm). bound - k)") auto

declare bubble_inner.simps [simp del]

function bubble_outer :: "nat \<Rightarrow> nat \<Rightarrow> nat \<Rightarrow> nat list \<Rightarrow> nat list option" where
  "bubble_outer beg en j perm =
     (if j < en then
        (case bubble_inner (size_t_sub en 1) beg perm of None \<Rightarrow> None
         | Some perm' \<Rightarrow> bubble_outer beg en (j + 1) perm')
      else Some perm)"
  by pat_completeness auto
termination
  by (relation "measure (\<lambda>(beg, en, j, perm). en - j)") auto

declare bubble_outer.simps [simp del]

function sort_intervals :: "nat list \<Rightarrow> nat \<Rightarrow> nat list \<Rightarrow> nat list option" where
  "sort_intervals ivs i perm =
     (if i < length ivs div 2 then
        (case vec_at ivs (2 * i) of None \<Rightarrow> None | Some beg \<Rightarrow>
        (case vec_at ivs (2 * i + 1) of None \<Rightarrow> None | Some en \<Rightarrow>
        (case bubble_outer beg en beg perm of None \<Rightarrow> None
         | Some perm' \<Rightarrow> sort_intervals ivs (i + 1) perm')))
      else Some perm)"
  by pat_completeness auto
termination
  by (relation "measure (\<lambda>(ivs, i, perm). length ivs div 2 - i)") auto

declare sort_intervals.simps [simp del]

text \<open>Lines 156 to 158: a point within \<open>eps\<close> of its predecessor takes over the predecessor's id.\<close>

function collapse_ids ::
  "real \<Rightarrow> point list \<Rightarrow> nat list \<Rightarrow> nat \<Rightarrow> nat \<Rightarrow> nat list \<Rightarrow> nat list option" where
  "collapse_ids eps pnt_vec perm bound k pnt_id_map =
     (if k < bound then
        (case vec_at pnt_vec (k + 1) of None \<Rightarrow> None | Some a \<Rightarrow>
        (case vec_at pnt_vec k of None \<Rightarrow> None | Some b \<Rightarrow>
           if maxNormDist a b \<le> eps
           then
             (case vec_at perm k of None \<Rightarrow> None | Some pk \<Rightarrow>
             (case vec_at pnt_id_map pk of None \<Rightarrow> None | Some v \<Rightarrow>
             (case vec_at perm (k + 1) of None \<Rightarrow> None | Some pk1 \<Rightarrow>
             (case vec_put pnt_id_map pk1 v of None \<Rightarrow> None
              | Some m \<Rightarrow> collapse_ids eps pnt_vec perm bound (k + 1) m))))
           else collapse_ids eps pnt_vec perm bound (k + 1) pnt_id_map))
      else Some pnt_id_map)"
  by pat_completeness auto
termination
  by (relation "measure (\<lambda>(eps, pnt_vec, perm, bound, k, pnt_id_map). bound - k)") auto

declare collapse_ids.simps [simp del]

text \<open>
  Lines 164 to 172: the entries whose id is smaller than their index are deleted and set to the
  null pointer (\<open>None\<close>), then the null pointers are removed.
\<close>

function null_dups :: "nat list \<Rightarrow> nat \<Rightarrow> nat \<Rightarrow> point option list \<Rightarrow> point option list option" where
  "null_dups pnt_id_map n k pnt_vec =
     (if k < n then
        (case vec_at pnt_id_map k of None \<Rightarrow> None | Some v \<Rightarrow>
           if v < k
           then (case vec_put pnt_vec k None of None \<Rightarrow> None
                 | Some pv \<Rightarrow> null_dups pnt_id_map n (k + 1) pv)
           else null_dups pnt_id_map n (k + 1) pnt_vec)
      else Some pnt_vec)"
  by pat_completeness auto
termination
  by (relation "measure (\<lambda>(pnt_id_map, n, k, pnt_vec). n - k)") auto

declare null_dups.simps [simp del]

fun remove_null :: "'a option list \<Rightarrow> 'a list" where
  "remove_null [] = []"
| "remove_null (None # xs) = remove_null xs"
| "remove_null (Some x # xs) = x # remove_null xs"

text \<open>Lines 175 to 183: the ids are renumbered to positions in the compacted vector.\<close>

function renumber :: "nat \<Rightarrow> nat \<Rightarrow> nat \<Rightarrow> nat list \<Rightarrow> nat list option" where
  "renumber n k cid pnt_id_map =
     (if k < n then
        (case vec_at pnt_id_map k of None \<Rightarrow> None | Some v \<Rightarrow>
           if v = k
           then (case vec_put pnt_id_map k cid of None \<Rightarrow> None
                 | Some m \<Rightarrow> renumber n (k + 1) (cid + 1) m)
           else
             (case vec_at pnt_id_map v of None \<Rightarrow> None | Some w \<Rightarrow>
             (case vec_put pnt_id_map k w of None \<Rightarrow> None
              | Some m \<Rightarrow> renumber n (k + 1) cid m)))
      else Some pnt_id_map)"
  by pat_completeness auto
termination
  by (relation "measure (\<lambda>(n, k, cid, pnt_id_map). n - k)") auto

declare renumber.simps [simp del]

text \<open>
  The whole routine. \<open>qs\<close> sorts the points and carries \<open>perm\<close> along (line 121), \<open>qs'\<close> sorts
  \<open>perm\<close> and carries the points along (line 161). The result is the compacted point vector and
  the id map.
\<close>

definition makePntsUnique ::
  "((point \<times> nat) list \<Rightarrow> (point \<times> nat) list) \<Rightarrow> ((nat \<times> point) list \<Rightarrow> (nat \<times> point) list) \<Rightarrow>
   point list \<Rightarrow> real \<Rightarrow> (point list \<times> nat list) option" where
  "makePntsUnique qs qs' pnt_vec eps =
     (let n_pnts_in_file = length pnt_vec;
          perm = [0..<n_pnts_in_file];
          pnt_id_map = [0..<n_pnts_in_file];
          sorted_pairs = qs (zip pnt_vec perm);
          pnt_vec = map fst sorted_pairs;
          perm = map snd sorted_pairs
      in
        (case find_intervals eps pnt_vec (size_t_sub n_pnts_in_file 1) 0 [] False of
           None \<Rightarrow> None
         | Some (ivs, identical) \<Rightarrow>
        (case sort_intervals (if identical then ivs @ [n_pnts_in_file] else ivs) 0 perm of
           None \<Rightarrow> None
         | Some perm \<Rightarrow>
        (case collapse_ids eps pnt_vec perm (size_t_sub n_pnts_in_file 1) 0 pnt_id_map of
           None \<Rightarrow> None
         | Some pnt_id_map \<Rightarrow>
        (let back_pairs = qs' (zip perm pnt_vec);
             pnt_vec = map snd back_pairs
         in
        (case null_dups pnt_id_map n_pnts_in_file 0 (map Some pnt_vec) of
           None \<Rightarrow> None
         | Some pv \<Rightarrow>
        (case renumber n_pnts_in_file 0 0 pnt_id_map of
           None \<Rightarrow> None
         | Some pnt_id_map \<Rightarrow> Some (remove_null pv, pnt_id_map))))))))"

subsection \<open>The registry\<close>

datatype warning = DoublePoints nat | SharedName string

record PointVec =
  data_vec :: "point list"
  name_id_map :: "(string \<times> nat) list"
  id_to_name_map :: "string list"
  pnt_id_map :: "nat list"
  aabb :: aabb
  rel_eps :: real
  warnings :: "warning list"

text \<open>Lines 189 to 192 and 52 to 54: a vector of names is filled from the name map.\<close>

fun fill_names :: "(string \<times> nat) list \<Rightarrow> string list \<Rightarrow> string list option" where
  "fill_names [] names = Some names"
| "fill_names ((nm, i) # rest) names =
     (case vec_put names i nm of None \<Rightarrow> None | Some names' \<Rightarrow> fill_names rest names')"

text \<open>
  Lines 194 to 217: the walk over the name map. An erased entry is left out of the result, an
  entry whose id is changed is kept with the new id.
\<close>

fun correct_names :: "nat list \<Rightarrow> string list \<Rightarrow> (string \<times> nat) list \<Rightarrow> (string \<times> nat) list option" where
  "correct_names idm id_names [] = Some []"
| "correct_names idm id_names ((nm, i) # rest) =
     (case vec_at idm i of None \<Rightarrow> None | Some r \<Rightarrow>
        if r = i then map_option ((#) (nm, i)) (correct_names idm id_names rest)
        else
          (case vec_at idm r of None \<Rightarrow> None | Some rr \<Rightarrow>
             if rr = r then
               (case vec_at id_names r of None \<Rightarrow> None | Some nmr \<Rightarrow>
                  if length nmr \<noteq> 0 then correct_names idm id_names rest
                  else map_option ((#) (nm, r)) (correct_names idm id_names rest))
             else map_option ((#) (nm, r)) (correct_names idm id_names rest)))"

definition correctNameIDMapping :: "nat list \<Rightarrow> (string \<times> nat) list \<Rightarrow> (string \<times> nat) list option" where
  "correctNameIDMapping idm names =
     (case fill_names names (replicate (length idm) []) of None \<Rightarrow> None
      | Some id_names \<Rightarrow> correct_names idm id_names names)"

text \<open>Lines 31 to 55: the constructor.\<close>

definition PointVec_ctor ::
  "((point \<times> nat) list \<Rightarrow> (point \<times> nat) list) \<Rightarrow> ((nat \<times> point) list \<Rightarrow> (nat \<times> point) list) \<Rightarrow>
   point list \<Rightarrow> (string \<times> nat) list \<Rightarrow> real \<Rightarrow> PointVec option" where
  "PointVec_ctor qs qs' points names eps0 =
     (let box = AABB_range points;
          number_of_all_input_pnts = length points;
          eps = eps0 * sqrt (sqrDist (fst box) (snd box))
      in
        (case makePntsUnique qs qs' points eps of None \<Rightarrow> None
         | Some (dv, idm) \<Rightarrow>
        (let ws = (if number_of_all_input_pnts > length dv
                   then [DoublePoints (number_of_all_input_pnts - length dv)] else [])
         in
        (case correctNameIDMapping idm names of None \<Rightarrow> None
         | Some names' \<Rightarrow>
        (case fill_names names' (replicate (length dv) []) of None \<Rightarrow> None
         | Some id_names \<Rightarrow>
           Some \<lparr> data_vec = dv, name_id_map = names', id_to_name_map = id_names,
                  pnt_id_map = idm, aabb = box, rel_eps = eps, warnings = ws \<rparr>)))))"

text \<open>Lines 88 to 109: \<^verbatim>\<open>std::find_if\<close> gives the first position that matches, or the length.\<close>

fun find_if :: "('a \<Rightarrow> bool) \<Rightarrow> 'a list \<Rightarrow> nat" where
  "find_if P [] = 0"
| "find_if P (x # xs) = (if P x then 0 else Suc (find_if P xs))"

definition uniqueInsert :: "PointVec \<Rightarrow> point \<Rightarrow> nat \<times> PointVec" where
  "uniqueInsert s pnt =
     (let it = find_if (\<lambda>p. maxNormDist p pnt \<le> rel_eps s) (data_vec s)
      in if it \<noteq> length (data_vec s) then (it, s)
         else
           (let s' = s \<lparr> data_vec := data_vec s @ [pnt], aabb := AABB_update (aabb s) pnt \<rparr>
            in (size_t_sub (length (data_vec s')) 1, s')))"

text \<open>Lines 60 to 65.\<close>

definition push_back :: "PointVec \<Rightarrow> point \<Rightarrow> nat \<times> PointVec" where
  "push_back s pnt =
     (let (i, s1) = uniqueInsert s pnt;
          s2 = s1 \<lparr> pnt_id_map := pnt_id_map s1 @ [i], id_to_name_map := id_to_name_map s1 @ [[]] \<rparr>
      in (pnt_id_map s2 ! size_t_sub (length (pnt_id_map s2)) 1, s2))"

text \<open>
  Lines 67 to 86. \<^verbatim>\<open>(*_name_id_map)[*name] = id\<close> is reached only for a name that is not a key
  of the map, so it inserts a new entry at the place of the key.
\<close>

definition map_assign :: "string \<Rightarrow> nat \<Rightarrow> (string \<times> nat) list \<Rightarrow> (string \<times> nat) list" where
  "map_assign nm i m =
     (if nm \<in> fst ` set m then map (\<lambda>(k, v). if k = nm then (k, i) else (k, v)) m
      else insort_key fst (nm, i) m)"

definition push_back_named :: "PointVec \<Rightarrow> point \<Rightarrow> string option \<Rightarrow> PointVec" where
  "push_back_named s pnt name =
     (case name of
        None \<Rightarrow>
          (let (i, s1) = uniqueInsert s pnt
           in s1 \<lparr> pnt_id_map := pnt_id_map s1 @ [i], id_to_name_map := id_to_name_map s1 @ [[]] \<rparr>)
      | Some nm \<Rightarrow>
          (case map_of (name_id_map s) nm of
             Some _ \<Rightarrow>
               s \<lparr> id_to_name_map := id_to_name_map s @ [[]],
                   warnings := warnings s @ [SharedName nm] \<rparr>
           | None \<Rightarrow>
               (let (i, s1) = uniqueInsert s pnt
                in s1 \<lparr> pnt_id_map := pnt_id_map s1 @ [i],
                        name_id_map := map_assign nm i (name_id_map s1),
                        id_to_name_map := id_to_name_map s1 @ [nm] \<rparr>)))"

subsection \<open>Two registries used in the examples\<close>

text \<open>
  \<open>one_named_point\<close> is the state built by the constructor from the single point \<open>(0, 0, 0)\<close>
  named \<open>A\<close>; \<open>second_point_named\<close> is the state built from the points \<open>(0, 0, 0)\<close> and
  \<open>(2, 0, 0)\<close>, the second named \<open>A\<close>, with relative epsilon 1/2 (tolerance 1).
\<close>

definition one_named_point :: PointVec where
  "one_named_point = \<lparr> data_vec = [(0, 0, 0)], name_id_map = [(''A'', 0)],
     id_to_name_map = [''A''], pnt_id_map = [0], aabb = ((0, 0, 0), (0, 0, 0)), rel_eps = 0,
     warnings = [] \<rparr>"

definition second_point_named :: PointVec where
  "second_point_named = \<lparr> data_vec = [(0, 0, 0), (2, 0, 0)], name_id_map = [(''A'', 1)],
     id_to_name_map = [[], ''A''], pnt_id_map = [0, 1], aabb = ((0, 0, 0), (2, 0, 0)),
     rel_eps = 1, warnings = [] \<rparr>"

subsection \<open>Sequences of insertions\<close>

text \<open>
  The states reachable from a constructed registry are those obtained by a sequence of calls of
  the two \<^verbatim>\<open>push_back\<close> overloads. \<open>name_in_use\<close> is the test of lines 75 and 76 that makes
  the named overload return early, \<open>recorded\<close> counts the calls that did not return early.
  \<open>tolerance\<close> is the value computed at line 41.
\<close>

datatype insert_op = Insert point | InsertNamed point "string option"

fun apply_insert :: "PointVec \<Rightarrow> insert_op \<Rightarrow> PointVec" where
  "apply_insert s (Insert p) = snd (push_back s p)"
| "apply_insert s (InsertNamed p name) = push_back_named s p name"

fun name_in_use :: "PointVec \<Rightarrow> insert_op \<Rightarrow> bool" where
  "name_in_use s (InsertNamed p (Some nm)) = (map_of (name_id_map s) nm \<noteq> None)"
| "name_in_use s _ = False"

fun inserts :: "PointVec \<Rightarrow> insert_op list \<Rightarrow> PointVec" where
  "inserts s [] = s"
| "inserts s (x # xs) = inserts (apply_insert s x) xs"

fun recorded :: "PointVec \<Rightarrow> insert_op list \<Rightarrow> nat" where
  "recorded s [] = 0"
| "recorded s (x # xs) = (if name_in_use s x then 0 else 1) + recorded (apply_insert s x) xs"

definition tolerance :: "point list \<Rightarrow> real \<Rightarrow> real" where
  "tolerance points eps0 =
     eps0 * sqrt (sqrDist (fst (AABB_range points)) (snd (AABB_range points)))"

subsection \<open>Notions for the analysis of makePntsUnique\<close>

text \<open>
  \<open>adj\<close> lists, for each position of the sorted vector but the last, whether the next point is
  within \<open>eps\<close>; \<open>ivs_spec\<close> is the interval vector of lines 126 to 143 as a function of these
  flags; \<open>sweep\<close> is one pass of the inner loop of the bubble sort on a segment; \<open>sort_pairs\<close>
  walks the interval vector two entries at a time; \<open>rstart\<close> is the first position of the run
  of neighbours within \<open>eps\<close> that a position belongs to. \<open>run_min\<close>, \<open>collapsed\<close> and
  \<open>fixed_below\<close> are the loop invariants of lines 145 to 183.
\<close>

fun adj :: "real \<Rightarrow> point list \<Rightarrow> bool list" where
  "adj eps (p # q # ps) = (maxNormDist q p \<le> eps) # adj eps (q # ps)"
| "adj eps ps = []"

fun ivs_spec :: "nat \<Rightarrow> bool \<Rightarrow> bool list \<Rightarrow> nat list" where
  "ivs_spec k ident [] = (if ident then [k + 1] else [])"
| "ivs_spec k ident (b # c) =
     (if b then (if ident then [] else [k]) else (if ident then [k + 1] else []))
     @ ivs_spec (k + 1) b c"

fun sweep :: "nat list \<Rightarrow> nat list" where
  "sweep (x # y # zs) = (if x > y then y # sweep (x # zs) else x # sweep (y # zs))"
| "sweep xs = xs"

fun sort_pairs :: "nat list \<Rightarrow> nat list \<Rightarrow> nat list option" where
  "sort_pairs (b # e # ivs) perm =
     (case bubble_outer b e b perm of None \<Rightarrow> None | Some p \<Rightarrow> sort_pairs ivs p)"
| "sort_pairs ivs perm = Some perm"

fun rstart :: "bool list \<Rightarrow> nat \<Rightarrow> nat" where
  "rstart c 0 = 0"
| "rstart c (Suc j) = (if c ! j then rstart c j else Suc j)"

definition run_min :: "bool list \<Rightarrow> nat \<Rightarrow> nat list \<Rightarrow> nat list \<Rightarrow> bool" where
  "run_min c b p perm \<longleftrightarrow> length p = length perm \<and> mset p = mset perm
     \<and> (\<forall>j < b. p ! j = perm ! j)
     \<and> (\<forall>j. b \<le> j \<and> j < length perm \<longrightarrow> p ! rstart c j \<le> p ! j)"

definition collapsed :: "bool list \<Rightarrow> nat list \<Rightarrow> nat \<Rightarrow> nat list \<Rightarrow> bool" where
  "collapsed c P k idm \<longleftrightarrow> length idm = length P
     \<and> (\<forall>j \<le> k. j < length P \<longrightarrow> idm ! (P ! j) = P ! rstart c j)
     \<and> (\<forall>j. k < j \<and> j < length P \<longrightarrow> idm ! (P ! j) = P ! j)"

definition fixed_below :: "nat list \<Rightarrow> nat \<Rightarrow> nat" where
  "fixed_below idm m = length (filter (\<lambda>j. idm ! j = j) [0..<m])"

section \<open>Properties\<close>

subsection \<open>The sorting primitive\<close>

lemma sorts_by_key_sort_key: "sorts_by_key (sort_key fst)"
  by (simp add: sorts_by_key_def)

text \<open>On distinct keys the result of a sort is determined.\<close>

lemma sorts_by_key_distinct:
  assumes "sorts_by_key qs" "distinct (map fst xs)"
  shows "qs xs = sort_key fst xs"
proof -
  from assms(1) have m: "mset (qs xs) = mset xs" and s: "sorted (map fst (qs xs))"
    by (simp_all add: sorts_by_key_def)
  from assms(2) have "inj_on fst (set xs)" by (simp add: distinct_map)
  from sort_key_inj_key_eq [OF m [symmetric] this s] show ?thesis by simp
qed

lemmas loop_simps = find_intervals.simps bubble_inner.simps bubble_outer.simps
  sort_intervals.simps collapse_ids.simps null_dups.simps renumber.simps

lemma ctor_one_named_point:
  "PointVec_ctor (sort_key fst) (sort_key fst) [(0, 0, 0)] [(''A'', 0)] 1 = Some one_named_point"
  by (simp add: PointVec_ctor_def makePntsUnique_def size_t_sub_def loop_simps vec_at_def
      vec_put_def correctNameIDMapping_def one_named_point_def)

text \<open>Constructions evaluated on particular inputs, used in the examples below.\<close>

lemma sqrt_25: "sqrt 25 = 5"
  by (rule real_sqrt_unique) simp_all

lemma sqrt_16: "sqrt 16 = 4"
  by (rule real_sqrt_unique) simp_all

lemmas eval_simps = PointVec_ctor_def makePntsUnique_def size_t_sub_def loop_simps vec_at_def
  vec_put_def correctNameIDMapping_def less_eq_prod_def

lemma ctor_three_apart:
  "PointVec_ctor (sort_key fst) (sort_key fst) [(0, 0, 0), (1, 4, 0), (3, 0, 0)] [] (3 / 5)
   = Some \<lparr> data_vec = [(0, 0, 0), (1, 4, 0), (3, 0, 0)], name_id_map = [],
       id_to_name_map = [[], [], []], pnt_id_map = [0, 1, 2], aabb = ((0, 0, 0), (3, 4, 0)),
       rel_eps = 3, warnings = [] \<rparr>"
  by (simp add: eval_simps sqrt_25)

lemma ctor_extreme_duplicate:
  "PointVec_ctor (sort_key fst) (sort_key fst) [(0, 0, 0), (3, 0, 0), (4, 0, 0)] [] (1 / 4)
   = Some \<lparr> data_vec = [(0, 0, 0), (3, 0, 0)], name_id_map = [],
       id_to_name_map = [[], []], pnt_id_map = [0, 1, 1], aabb = ((0, 0, 0), (4, 0, 0)),
       rel_eps = 1, warnings = [DoublePoints 1] \<rparr>"
  by (simp add: eval_simps sqrt_16)

lemma ctor_scenario_B:
  "PointVec_ctor (sort_key fst) (sort_key fst) [(0, 0, 0), (0, 0, 0)]
     [(''A'', 0), (''B'', 1)] 1
   = Some \<lparr> data_vec = [(0, 0, 0)], name_id_map = [(''A'', 0)],
       id_to_name_map = [''A''], pnt_id_map = [0, 0], aabb = ((0, 0, 0), (0, 0, 0)),
       rel_eps = 0, warnings = [DoublePoints 1] \<rparr>"
  by (simp add: eval_simps)

lemma ctor_second_point_named:
  "PointVec_ctor (sort_key fst) (sort_key fst) [(0, 0, 0), (2, 0, 0)] [(''A'', 1)] (1 / 2)
   = Some second_point_named"
  by (simp add: eval_simps second_point_named_def)

subsection \<open>The loops of makePntsUnique\<close>

lemma length_adj [simp]: "length (adj eps ps) = length ps - 1"
  by (induction eps ps rule: adj.induct) auto

lemma adj_nth: "Suc k < length ps \<Longrightarrow> adj eps ps ! k = (maxNormDist (ps ! Suc k) (ps ! k) \<le> eps)"
proof (induction eps ps arbitrary: k rule: adj.induct)
  case (1 eps p q ps)
  then show ?case by (cases k) auto
qed auto

lemma find_intervals_spec:
  assumes "k < length S"
  shows "\<exists>ivs' ident'. find_intervals eps S (length S - 1) k ivs ident = Some (ivs', ident')
     \<and> (if ident' then ivs' @ [length S] else ivs') = ivs @ ivs_spec k ident (drop k (adj eps S))"
  using assms
proof (induction "length S - 1 - k" arbitrary: k ivs ident)
  case 0
  then have k: "k = length S - 1" by simp
  then have d: "drop k (adj eps S) = []" by simp
  have "find_intervals eps S (length S - 1) k ivs ident = Some (ivs, ident)"
    using k by (subst find_intervals.simps) simp
  moreover have "length S = k + 1" using k 0(2) by simp
  ultimately show ?case by (simp add: d)
next
  case (Suc m)
  then have lt: "k < length S - 1" and lt': "Suc k < length S" by simp_all
  define c where "c = (maxNormDist (S ! Suc k) (S ! k) \<le> eps)"
  define ivs1 where "ivs1 = (if c then (if \<not> ident then ivs @ [k] else ivs)
                             else (if ident then ivs @ [Suc k] else ivs))"
  have d: "drop k (adj eps S) = c # drop (Suc k) (adj eps S)"
    unfolding c_def using lt Cons_nth_drop_Suc [of k "adj eps S"] adj_nth [OF lt', of eps]
    by simp
  have m: "m = length S - 1 - Suc k" using Suc(2) by simp
  have step: "find_intervals eps S (length S - 1) k ivs ident
      = find_intervals eps S (length S - 1) (Suc k) ivs1 c"
    using lt lt' by (subst find_intervals.simps) (simp add: vec_at_def c_def ivs1_def)
  from Suc(1) [OF m lt', of ivs1 c]
  obtain ivs' ident' where r: "find_intervals eps S (length S - 1) (Suc k) ivs1 c = Some (ivs', ident')"
    "(if ident' then ivs' @ [length S] else ivs') = ivs1 @ ivs_spec (Suc k) c (drop (Suc k) (adj eps S))"
    by blast
  have e: "ivs1 @ ivs_spec (Suc k) c (drop (Suc k) (adj eps S)) = ivs @ ivs_spec k ident (drop k (adj eps S))"
    unfolding d by (simp add: ivs1_def)
  show ?case using step r e by simp
qed

lemma length_sweep [simp]: "length (sweep xs) = length xs"
  by (induction xs rule: sweep.induct) auto

lemma mset_sweep [simp]: "mset (sweep xs) = mset xs"
  by (induction xs rule: sweep.induct) auto

lemma bubble_inner_sweep:
  "Suc bnd = length pre + length seg \<Longrightarrow>
   bubble_inner bnd (length pre) (pre @ seg @ post) = Some (pre @ sweep seg @ post)"
proof (induction seg arbitrary: pre rule: sweep.induct)
  case (1 x y zs)
  have lt: "length pre < bnd" using "1.prems" by simp
  have step: "bubble_inner bnd (length pre) (pre @ x # y # zs @ post)
      = bubble_inner bnd (Suc (length pre))
          (if y < x then pre @ y # x # zs @ post else pre @ x # y # zs @ post)"
    using lt by (subst bubble_inner.simps) (simp add: vec_at_def nth_append list_update_append)
  show ?case
  proof (cases "y < x")
    case True
    have "bubble_inner bnd (length (pre @ [y])) ((pre @ [y]) @ (x # zs) @ post)
        = Some ((pre @ [y]) @ sweep (x # zs) @ post)"
      by (rule "1.IH"(1) [OF True]) (use "1.prems" in simp)
    with True step show ?thesis by simp
  next
    case False
    have "bubble_inner bnd (length (pre @ [x])) ((pre @ [x]) @ (y # zs) @ post)
        = Some ((pre @ [x]) @ sweep (y # zs) @ post)"
      by (rule "1.IH"(2) [OF False]) (use "1.prems" in simp)
    with False step show ?thesis by simp
  qed
next
  case "2_1"
  then show ?case by (subst bubble_inner.simps) simp
next
  case "2_2"
  then show ?case by (subst bubble_inner.simps) simp
qed


lemma set_sweep [simp]: "set (sweep xs) = set xs"
  using mset_sweep [of xs] by (metis set_mset_mset)

lemma sweep_snoc_max: "\<forall>y \<in> set ys. y \<le> m \<Longrightarrow> sweep (ys @ [m]) = sweep ys @ [m]"
  by (induction ys rule: sweep.induct) auto

lemma sweep_last_max:
  "xs \<noteq> [] \<Longrightarrow> \<exists>ys m. sweep xs = ys @ [m] \<and> (\<forall>y \<in> set ys. y \<le> m)"
proof (induction xs rule: sweep.induct)
  case (1 x y zs)
  show ?case
  proof (cases "y < x")
    case True
    with "1.IH"(1) obtain ys m where r: "sweep (x # zs) = ys @ [m]" "\<forall>y \<in> set ys. y \<le> m"
      by auto
    have "x \<in> set (sweep (x # zs))" by simp
    then have "x \<le> m" unfolding r using r(2) by auto
    with True r have "sweep (x # y # zs) = (y # ys) @ [m] \<and> (\<forall>v \<in> set (y # ys). v \<le> m)"
      by auto
    then show ?thesis by blast
  next
    case False
    with "1.IH"(2) obtain ys m where r: "sweep (y # zs) = ys @ [m]" "\<forall>y \<in> set ys. y \<le> m"
      by auto
    have "y \<in> set (sweep (y # zs))" by simp
    then have "y \<le> m" unfolding r using r(2) by auto
    with False r have "sweep (x # y # zs) = (x # ys) @ [m] \<and> (\<forall>v \<in> set (x # ys). v \<le> m)"
      by auto
    then show ?thesis by blast
  qed
qed auto

lemma length_funpow_sweep [simp]: "length ((sweep ^^ k) xs) = length xs"
  by (induction k) auto

lemma mset_funpow_sweep [simp]: "mset ((sweep ^^ k) xs) = mset xs"
  by (induction k) auto

lemma set_funpow_sweep [simp]: "set ((sweep ^^ k) xs) = set xs"
  by (induction k) auto

lemma funpow_sweep_snoc:
  "\<forall>y \<in> set ys. y \<le> m \<Longrightarrow> (sweep ^^ k) (ys @ [m]) = (sweep ^^ k) ys @ [m]"
  by (induction k) (auto simp: sweep_snoc_max)

lemma sorted_funpow_sweep: "length xs \<le> k \<Longrightarrow> sorted ((sweep ^^ k) xs)"
proof (induction k arbitrary: xs)
  case 0
  then show ?case by simp
next
  case (Suc k)
  show ?case
  proof (cases "xs = []")
    case True
    have "(sweep ^^ n) [] = []" for n by (induction n) auto
    with True show ?thesis by simp
  next
    case False
    from sweep_last_max [OF False] obtain ys m where
      r: "sweep xs = ys @ [m]" "\<forall>y \<in> set ys. y \<le> m" by blast
    have "length (sweep xs) = length xs" by simp
    with r(1) Suc.prems have "length ys \<le> k" by simp
    from Suc.IH [OF this] have s: "sorted ((sweep ^^ k) ys)" .
    have "(sweep ^^ Suc k) xs = (sweep ^^ k) (sweep xs)" by (simp add: funpow_swap1)
    also have "\<dots> = (sweep ^^ k) ys @ [m]" by (simp add: r(1) funpow_sweep_snoc [OF r(2)])
    finally show ?thesis using s r(2) by (simp add: sorted_append)
  qed
qed

lemma bubble_outer_sweeps:
  assumes "seg \<noteq> []" "length pre \<le> j" "j \<le> length pre + length seg"
  shows "bubble_outer (length pre) (length pre + length seg) j (pre @ seg @ post)
     = Some (pre @ (sweep ^^ (length pre + length seg - j)) seg @ post)"
  using assms
proof (induction "length pre + length seg - j" arbitrary: j seg)
  case 0
  then have "j = length pre + length seg" by simp
  then show ?case by (subst bubble_outer.simps) simp
next
  case (Suc d)
  then have lt: "j < length pre + length seg" by simp
  obtain bnd where bnd: "Suc bnd = length pre + length seg"
    using Suc.prems(1) by (cases seg) auto
  have sub: "size_t_sub (length pre + length seg) (Suc 0) = bnd"
    using bnd by (simp add: size_t_sub_def)
  have inner: "bubble_inner bnd (length pre) (pre @ seg @ post) = Some (pre @ sweep seg @ post)"
    by (rule bubble_inner_sweep [OF bnd])
  have step: "bubble_outer (length pre) (length pre + length seg) j (pre @ seg @ post)
      = bubble_outer (length pre) (length pre + length seg) (Suc j) (pre @ sweep seg @ post)"
    using lt by (subst bubble_outer.simps) (simp add: sub inner)
  have ih: "bubble_outer (length pre) (length pre + length (sweep seg)) (Suc j) (pre @ sweep seg @ post)
      = Some (pre @ (sweep ^^ (length pre + length (sweep seg) - Suc j)) (sweep seg) @ post)"
  proof (rule Suc.hyps(1))
    show "d = length pre + length (sweep seg) - Suc j" using Suc.hyps(2) by simp
    show "sweep seg \<noteq> []" using Suc.prems(1) length_sweep [of seg] by (metis length_0_conv)
    show "length pre \<le> Suc j" using Suc.prems(2) by simp
    show "Suc j \<le> length pre + length (sweep seg)" using lt by simp
  qed
  have "length pre + length seg - j = Suc (length pre + length seg - Suc j)"
    using lt by simp
  then have "(sweep ^^ (length pre + length seg - j)) seg
      = (sweep ^^ (length pre + length seg - Suc j)) (sweep seg)"
    by (simp add: funpow_swap1)
  with step ih show ?case by simp
qed

lemma bubble_outer_segment:
  assumes "b < e" "e \<le> length perm"
  shows "\<exists>p. bubble_outer b e b perm = Some p \<and> length p = length perm \<and> mset p = mset perm
     \<and> (\<forall>j < b. p ! j = perm ! j) \<and> (\<forall>i j. b \<le> i \<and> i \<le> j \<and> j < e \<longrightarrow> p ! i \<le> p ! j)"
proof -
  define pre where "pre = take b perm"
  define seg where "seg = take (e - b) (drop b perm)"
  define post where "post = drop e perm"
  define seg' where "seg' = (sweep ^^ length seg) seg"
  have lp: "length pre = b" and ls: "length seg = e - b"
    using assms by (simp_all add: pre_def seg_def)
  have perm: "perm = pre @ seg @ post"
    unfolding pre_def seg_def post_def using assms
    by (metis add_diff_inverse_nat append_take_drop_id drop_drop not_less_iff_gr_or_eq order.asym add.commute)
  have ne: "seg \<noteq> []" using ls assms by auto
  have e: "e = length pre + length seg" using lp ls assms by simp
  have r: "bubble_outer b e b perm = Some (pre @ seg' @ post)"
    using bubble_outer_sweeps [OF ne, of pre "length pre" post]
    unfolding seg'_def by (simp add: perm [symmetric] lp e [symmetric]) (simp add: e lp)
  have srt: "sorted seg'" unfolding seg'_def by (rule sorted_funpow_sweep) simp
  have ls': "length seg' = e - b" by (simp add: seg'_def ls)
  have "(pre @ seg' @ post) ! i \<le> (pre @ seg' @ post) ! j" if "b \<le> i" "i \<le> j" "j < e" for i j
  proof -
    have "(pre @ seg' @ post) ! i = seg' ! (i - b)" "(pre @ seg' @ post) ! j = seg' ! (j - b)"
      using that lp ls' by (auto simp: nth_append)
    moreover have "seg' ! (i - b) \<le> seg' ! (j - b)"
      using srt that ls' by (intro sorted_nth_mono) auto
    ultimately show ?thesis by simp
  qed
  moreover have "(pre @ seg' @ post) ! j = perm ! j" if "j < b" for j
    using that lp by (simp add: nth_append) (simp add: pre_def)
  moreover have "mset (pre @ seg' @ post) = mset perm"
    using arg_cong [OF perm, of mset] by (simp add: seg'_def)
  moreover have "length (pre @ seg' @ post) = length perm"
    using arg_cong [OF perm, of length] by (simp add: seg'_def)
  ultimately show ?thesis using r by blast
qed

lemma sort_intervals_pairs:
  "even (length don) \<Longrightarrow> sort_intervals (don @ rest) (length don div 2) perm = sort_pairs rest perm"
proof (induction rest perm arbitrary: don rule: sort_pairs.induct)
  case (1 b e ivs perm)
  have i: "length don div 2 < length (don @ b # e # ivs) div 2"
    using "1.prems" by (auto elim!: evenE)
  have two: "2 * (length don div 2) = length don" using "1.prems" by simp
  have r1: "vec_at (don @ b # e # ivs) (2 * (length don div 2)) = Some b"
    unfolding two by (simp add: vec_at_def)
  have r2: "vec_at (don @ b # e # ivs) (2 * (length don div 2) + 1) = Some e"
    unfolding two by (simp add: vec_at_def nth_append)
  show ?case
  proof (cases "bubble_outer b e b perm")
    case None
    with i r1 r2 show ?thesis by (subst sort_intervals.simps) simp
  next
    case (Some p)
    have "sort_intervals ((don @ [b, e]) @ ivs) (length (don @ [b, e]) div 2) p = sort_pairs ivs p"
      by (rule "1.IH" [OF Some]) (use "1.prems" in simp)
    moreover have "length (don @ [b, e]) div 2 = length don div 2 + 1"
      using "1.prems" by (auto elim!: evenE)
    ultimately show ?thesis using i r1 r2 Some
      by (subst sort_intervals.simps) simp
  qed
next
  case "2_1"
  then show ?case by (subst sort_intervals.simps) simp
next
  case "2_2"
  then show ?case by (subst sort_intervals.simps) (auto elim!: evenE)
qed

lemma rstart_le: "rstart c j \<le> j"
  by (induction j) auto

lemma rstart_same_run: "rstart c k = b \<Longrightarrow> b \<le> j \<Longrightarrow> j \<le> k \<Longrightarrow> rstart c j = b"
proof (induction k)
  case 0
  then show ?case by simp
next
  case (Suc k)
  show ?case
  proof (cases "j = Suc k")
    case True
    with Suc.prems show ?thesis by simp
  next
    case False
    with Suc.prems have jk: "j \<le> k" by simp
    show ?thesis
    proof (cases "c ! k")
      case True
      with Suc.prems have "rstart c k = b" by simp
      from Suc.IH [OF this Suc.prems(2) jk] show ?thesis .
    next
      case False
      with Suc.prems have "b = Suc k" by simp
      with Suc.prems jk show ?thesis by simp
    qed
  qed
qed

lemma rstart_idem: "rstart c (rstart c j) = rstart c j"
  by (rule rstart_same_run [OF refl order_refl rstart_le])

lemma rstart_fix_iff: "rstart c j = j \<longleftrightarrow> j = 0 \<or> \<not> c ! (j - 1)"
proof (cases j)
  case 0
  then show ?thesis by simp
next
  case (Suc i)
  with rstart_le [of c i] show ?thesis by auto
qed

lemma sort_pairs_runs:
  assumes "k < length perm" "length c + 1 = length perm"
  shows "((k = 0 \<or> \<not> c ! (k - 1)) \<longrightarrow>
           (\<exists>p. sort_pairs (ivs_spec k False (drop k c)) perm = Some p \<and> run_min c k p perm))
       \<and> (\<forall>b0 < k. rstart c k = b0 \<longrightarrow>
           (\<exists>p. sort_pairs (b0 # ivs_spec k True (drop k c)) perm = Some p \<and> run_min c b0 p perm))"
  using assms
proof (induction "length perm - 1 - k" arbitrary: k perm)
  case 0
  then have k: "k = length perm - 1" and kn: "Suc k = length perm" by simp_all
  then have d: "drop k c = []" using 0 by simp
  have A: "run_min c k perm perm" if "k = 0 \<or> \<not> c ! (k - 1)"
  proof -
    from that have "rstart c k = k" by (simp add: rstart_fix_iff)
    then have "perm ! rstart c j \<le> perm ! j" if "k \<le> j" "j < length perm" for j
    proof -
      from that kn have "j = k" by simp
      with \<open>rstart c k = k\<close> show ?thesis by simp
    qed
    then show ?thesis unfolding run_min_def by simp
  qed
  have B: "\<exists>p. sort_pairs [b0, Suc k] perm = Some p \<and> run_min c b0 p perm"
    if "b0 < k" "rstart c k = b0" for b0
  proof -
    from that kn have "b0 < Suc k" "Suc k \<le> length perm" by simp_all
    from bubble_outer_segment [OF this] obtain p where
      p: "bubble_outer b0 (Suc k) b0 perm = Some p" "length p = length perm" "mset p = mset perm"
      "\<forall>j < b0. p ! j = perm ! j" "\<forall>i j. b0 \<le> i \<and> i \<le> j \<and> j < Suc k \<longrightarrow> p ! i \<le> p ! j"
      by blast
    have "p ! rstart c j \<le> p ! j" if j: "b0 \<le> j" "j < length perm" for j
    proof -
      from j kn have "j \<le> k" by simp
      from rstart_same_run [OF \<open>rstart c k = b0\<close> j(1) this] have "rstart c j = b0" .
      with p(5) j kn show ?thesis by simp
    qed
    with p show ?thesis by (auto simp: run_min_def)
  qed
  show ?case using A B by (auto simp: d)
next
  case (Suc m)
  then have lt: "Suc k < length perm" and kc: "k < length c" by simp_all
  have d: "drop k c = c ! k # drop (Suc k) c"
    using kc by (simp add: Cons_nth_drop_Suc)
  have m: "m = length perm - 1 - Suc k" using Suc(2) by simp
  note IH = Suc(1) [OF m]
  show ?case
  proof (cases "c ! k")
    case True
    have P2: "\<exists>p. sort_pairs (ivs_spec k False (drop k c)) perm = Some p \<and> run_min c k p perm"
      if "k = 0 \<or> \<not> c ! (k - 1)"
    proof -
      from that have "rstart c k = k" by (simp add: rstart_fix_iff)
      with True have "rstart c (Suc k) = k" by simp
      with IH [OF lt Suc(4)] have
        "\<exists>p. sort_pairs (k # ivs_spec (Suc k) True (drop (Suc k) c)) perm = Some p \<and> run_min c k p perm"
        by auto
      then show ?thesis using True by (simp add: d)
    qed
    have P1: "\<exists>p. sort_pairs (b0 # ivs_spec k True (drop k c)) perm = Some p \<and> run_min c b0 p perm"
      if "b0 < k" "rstart c k = b0" for b0
    proof -
      from that True have "rstart c (Suc k) = b0" "b0 < Suc k" by simp_all
      with IH [OF lt Suc(4)] have
        "\<exists>p. sort_pairs (b0 # ivs_spec (Suc k) True (drop (Suc k) c)) perm = Some p \<and> run_min c b0 p perm"
        by auto
      then show ?thesis using True by (simp add: d)
    qed
    show ?thesis using P1 P2 by blast
  next
    case False
    have P2: "\<exists>p. sort_pairs (ivs_spec k False (drop k c)) perm = Some p \<and> run_min c k p perm"
      if "k = 0 \<or> \<not> c ! (k - 1)"
    proof -
      from that have rk: "rstart c k = k" by (simp add: rstart_fix_iff)
      from IH [OF lt Suc(4)] False obtain p where
        p: "sort_pairs (ivs_spec (Suc k) False (drop (Suc k) c)) perm = Some p"
           "run_min c (Suc k) p perm"
        by auto
      have "p ! rstart c j \<le> p ! j" if j: "k \<le> j" "j < length perm" for j
      proof (cases "j = k")
        case True
        with rk show ?thesis by simp
      next
        case False
        with j have "Suc k \<le> j" by simp
        with p(2) j(2) show ?thesis unfolding run_min_def by blast
      qed
      then have "run_min c k p perm"
        using p(2) unfolding run_min_def by auto
      with p(1) False show ?thesis by (simp add: d)
    qed
    have P1: "\<exists>p. sort_pairs (b0 # ivs_spec k True (drop k c)) perm = Some p \<and> run_min c b0 p perm"
      if b0: "b0 < k" "rstart c k = b0" for b0
    proof -
      from b0 lt have "b0 < Suc k" "Suc k \<le> length perm" by simp_all
      from bubble_outer_segment [OF this] obtain p1 where
        p1: "bubble_outer b0 (Suc k) b0 perm = Some p1" "length p1 = length perm"
        "mset p1 = mset perm"
        "\<forall>j < b0. p1 ! j = perm ! j" "\<forall>i j. b0 \<le> i \<and> i \<le> j \<and> j < Suc k \<longrightarrow> p1 ! i \<le> p1 ! j"
        by blast
      have lt1: "Suc k < length p1" and c1: "length c + 1 = length p1"
        using lt Suc(4) p1(2) by simp_all
      have m1: "m = length p1 - 1 - Suc k" using m p1(2) by simp
      from Suc(1) [OF m1 lt1 c1] False obtain p where
        p: "sort_pairs (ivs_spec (Suc k) False (drop (Suc k) c)) p1 = Some p"
           "run_min c (Suc k) p p1"
        by auto
      have "p ! rstart c j \<le> p ! j" if j: "b0 \<le> j" "j < length perm" for j
      proof (cases "j \<le> k")
        case True
        from rstart_same_run [OF b0(2) j(1) True] have r: "rstart c j = b0" .
        have "p ! b0 = p1 ! b0" "p ! j = p1 ! j"
          using p(2) b0(1) True unfolding run_min_def by auto
        with p1(5) j(1) True r show ?thesis by simp
      next
        case False
        with p(2) j(2) p1(2) show ?thesis unfolding run_min_def by auto
      qed
      moreover have "\<forall>j < b0. p ! j = perm ! j"
        using p(2) p1(4) b0(1) unfolding run_min_def by auto
      ultimately have "run_min c b0 p perm"
        using p(2) p1(2,3) unfolding run_min_def by auto
      with p(1) p1(1) False show ?thesis by (simp add: d)
    qed
    show ?thesis using P1 P2 by blast
  qed
qed

lemma collapse_ids_runs:
  assumes "length S = length P" "distinct P" "\<forall>x \<in> set P. x < length P"
    and "k < length P" "collapsed (adj eps S) P k idm"
  shows "\<exists>idm'. collapse_ids eps S P (length P - 1) k idm = Some idm'
     \<and> collapsed (adj eps S) P (length P - 1) idm'"
  using assms(4,5)
proof (induction "length P - 1 - k" arbitrary: k idm)
  case 0
  then have "k = length P - 1" by simp
  with 0 show ?case by (subst collapse_ids.simps) simp
next
  case (Suc m)
  then have lt: "k < length P - 1" and lt': "Suc k < length P" by simp_all
  have m: "m = length P - 1 - Suc k" using Suc(2) by simp
  have len: "length idm = length P" using Suc.prems(2) by (simp add: collapsed_def)
  have pk: "P ! k < length P" "P ! Suc k < length P"
    using assms(3) Suc.prems(1) lt' by simp_all
  have flag: "adj eps S ! k = (maxNormDist (S ! Suc k) (S ! k) \<le> eps)"
    using lt' assms(1) by (simp add: adj_nth)
  define idm1 where "idm1 = (if adj eps S ! k then idm[P ! Suc k := idm ! (P ! k)] else idm)"
  have step: "collapse_ids eps S P (length P - 1) k idm
      = collapse_ids eps S P (length P - 1) (Suc k) idm1"
    using lt lt' pk len assms(1) flag
    by (subst collapse_ids.simps) (simp add: vec_at_def vec_put_def idm1_def)
  have inv: "collapsed (adj eps S) P (Suc k) idm1"
  proof (cases "adj eps S ! k")
    case True
    have "idm1 ! (P ! j) = P ! rstart (adj eps S) j" if j: "j \<le> Suc k" for j
    proof (cases "j = Suc k")
      case True
      with \<open>adj eps S ! k\<close> Suc.prems(2) Suc.prems(1) pk len show ?thesis
        by (simp add: idm1_def collapsed_def)
    next
      case False
      with j have jk: "j \<le> k" by simp
      then have "P ! j \<noteq> P ! Suc k"
        using assms(2) lt' by (simp add: nth_eq_iff_index_eq)
      with True jk Suc.prems lt' show ?thesis
        by (simp add: idm1_def collapsed_def)
    qed
    moreover have "idm1 ! (P ! j) = P ! j" if j: "Suc k < j" "j < length P" for j
    proof -
      have "P ! j \<noteq> P ! Suc k"
        using assms(2) lt' j by (simp add: nth_eq_iff_index_eq)
      with True j Suc.prems show ?thesis by (simp add: idm1_def collapsed_def)
    qed
    ultimately show ?thesis using len True by (simp add: collapsed_def idm1_def)
  next
    case False
    have "idm ! (P ! j) = P ! rstart (adj eps S) j" if j: "j \<le> Suc k" "j < length P" for j
    proof (cases "j = Suc k")
      case True
      with False Suc.prems lt' show ?thesis by (simp add: collapsed_def)
    next
      case False
      with j have "j \<le> k" by simp
      with Suc.prems j show ?thesis by (simp add: collapsed_def)
    qed
    with False Suc.prems show ?thesis by (simp add: collapsed_def idm1_def)
  qed
  from Suc(1) [OF m lt' inv] step show ?case by simp
qed

lemma null_dups_spec:
  assumes "length idm = n" "k \<le> n"
  shows "null_dups idm n k (map (\<lambda>i. if i < k \<and> idm ! i < i then None else Some (X ! i)) [0..<n])
     = Some (map (\<lambda>i. if idm ! i < i then None else Some (X ! i)) [0..<n])"
  using assms(2)
proof (induction "n - k" arbitrary: k)
  case 0
  then have "k = n" by simp
  then have "map (\<lambda>i. if i < k \<and> idm ! i < i then None else Some (X ! i)) [0..<n]
      = map (\<lambda>i. if idm ! i < i then None else Some (X ! i)) [0..<n]"
    by simp
  with \<open>k = n\<close> show ?case by (subst null_dups.simps) simp
next
  case (Suc m)
  then have lt: "k < n" by simp
  let ?g = "\<lambda>k i. if i < k \<and> idm ! i < i then None else Some (X ! i)"
  have upd1: "idm ! k < k \<Longrightarrow> (map (?g k) [0..<n])[k := None] = map (?g (Suc k)) [0..<n]"
    using lt by (intro nth_equalityI) (auto simp: nth_list_update less_Suc_eq)
  have upd2: "\<not> idm ! k < k \<Longrightarrow> map (?g k) [0..<n] = map (?g (Suc k)) [0..<n]"
    using lt by (intro nth_equalityI) (auto simp: less_Suc_eq)
  have upd: "(if idm ! k < k then (map (?g k) [0..<n])[k := None] else map (?g k) [0..<n])
      = map (?g (Suc k)) [0..<n]"
    using upd1 upd2 by (cases "idm ! k < k") simp_all
  have "null_dups idm n k (map (?g k) [0..<n])
      = null_dups idm n (Suc k)
          (if idm ! k < k then (map (?g k) [0..<n])[k := None] else map (?g k) [0..<n])"
    using lt assms(1)
    by (subst null_dups.simps) (simp add: vec_at_def vec_put_def del: upt_Suc)
  then have step: "null_dups idm n k (map (?g k) [0..<n])
      = null_dups idm n (Suc k) (map (?g (Suc k)) [0..<n])"
    unfolding upd .
  have "null_dups idm n (Suc k) (map (?g (Suc k)) [0..<n])
      = Some (map (\<lambda>i. if idm ! i < i then None else Some (X ! i)) [0..<n])"
    by (rule Suc(1)) (use Suc(2) lt in simp_all)
  with step show ?case by simp
qed

lemma remove_null_map:
  "remove_null (map (\<lambda>i. if P i then None else Some (f i)) xs) = map f (filter (\<lambda>i. \<not> P i) xs)"
  by (induction xs) auto

lemma fixed_below_Suc:
  "fixed_below idm (Suc m) = (if idm ! m = m then Suc (fixed_below idm m) else fixed_below idm m)"
  by (simp add: fixed_below_def)

lemma fixed_below_mono: "a \<le> b \<Longrightarrow> fixed_below idm a \<le> fixed_below idm b"
  by (induction b) (auto simp: fixed_below_Suc le_Suc_eq)

lemma renumber_spec:
  assumes "length idm = n" "\<forall>k < n. idm ! k \<le> k" "\<forall>k < n. idm ! (idm ! k) = idm ! k" "k \<le> n"
  shows "renumber n k (fixed_below idm k)
           (map (\<lambda>i. if i < k then fixed_below idm (idm ! i) else idm ! i) [0..<n])
     = Some (map (\<lambda>i. fixed_below idm (idm ! i)) [0..<n])"
  using assms(4)
proof (induction "n - k" arbitrary: k)
  case 0
  then have "k = n" by simp
  then have "map (\<lambda>i. if i < k then fixed_below idm (idm ! i) else idm ! i) [0..<n]
      = map (\<lambda>i. fixed_below idm (idm ! i)) [0..<n]"
    by simp
  with \<open>k = n\<close> show ?case by (subst renumber.simps) simp
next
  case (Suc m)
  then have lt: "k < n" by simp
  let ?g = "\<lambda>k i. if i < k then fixed_below idm (idm ! i) else idm ! i"
  let ?cur = "map (?g k) [0..<n]"
  have vk: "vec_at ?cur k = Some (idm ! k)"
    using lt by (simp add: vec_at_def)
  have ih: "renumber n (Suc k) (fixed_below idm (Suc k)) (map (?g (Suc k)) [0..<n])
      = Some (map (\<lambda>i. fixed_below idm (idm ! i)) [0..<n])"
    by (rule Suc(1)) (use Suc(2) lt in simp_all)
  show ?case
  proof (cases "idm ! k = k")
    case True
    have upd: "?cur[k := fixed_below idm k] = map (?g (Suc k)) [0..<n]"
      using lt True by (intro nth_equalityI) (auto simp: nth_list_update less_Suc_eq)
    have "renumber n k (fixed_below idm k) ?cur
        = renumber n (Suc k) (Suc (fixed_below idm k)) (map (?g (Suc k)) [0..<n])"
      using lt True upd
      by (subst renumber.simps) (simp add: vk vec_put_def del: upt_Suc)
    with ih True show ?thesis by (simp add: fixed_below_Suc)
  next
    case False
    with assms(2) lt have vlt: "idm ! k < k" by (simp add: order.strict_iff_order)
    from assms(3) lt have fx: "idm ! (idm ! k) = idm ! k" by simp
    have vv: "vec_at ?cur (idm ! k) = Some (fixed_below idm (idm ! k))"
      using vlt lt fx by (simp add: vec_at_def)
    have upd: "?cur[k := fixed_below idm (idm ! k)] = map (?g (Suc k)) [0..<n]"
      using lt by (intro nth_equalityI) (auto simp: nth_list_update less_Suc_eq)
    have "renumber n k (fixed_below idm k) ?cur
        = renumber n (Suc k) (fixed_below idm k) (map (?g (Suc k)) [0..<n])"
      using lt False upd
      by (subst renumber.simps) (simp add: vk vv vec_put_def del: upt_Suc)
    with ih False show ?thesis by (simp add: fixed_below_Suc)
  qed
qed

lemma zip_upt_filter:
  "length X = n \<Longrightarrow>
   map snd (filter (\<lambda>z. \<phi> (fst z)) (zip [0..<n] X)) = map ((!) X) (filter \<phi> [0..<n])"
proof -
  assume l: "length X = n"
  have "zip [0..<n] X = map (\<lambda>i. (i, X ! i)) [0..<n]"
    using l by (intro nth_equalityI) auto
  then show ?thesis by (simp add: filter_map o_def)
qed

lemma zip_nth_filter:
  "length A = n \<Longrightarrow> length B = n \<Longrightarrow>
   map snd (filter (\<lambda>z. \<phi> (fst z)) (zip A B)) = map ((!) B) (filter (\<lambda>j. \<phi> (A ! j)) [0..<n])"
proof -
  assume l: "length A = n" "length B = n"
  have "zip A B = map (\<lambda>i. (A ! i, B ! i)) [0..<n]"
    using l by (intro nth_equalityI) auto
  then show ?thesis by (simp add: filter_map o_def)
qed

lemma sorted_perm_upt:
  assumes "sorted xs" "mset xs = mset [0..<n]"
  shows "xs = [0..<n]"
proof -
  have "sort [0..<n] = xs" using assms by (intro properties_for_sort) simp_all
  moreover have "sort [0..<n] = [0..<n]" by (simp add: sorted_sort_id)
  ultimately show ?thesis by simp
qed

lemma makePntsUnique_result:
  assumes qs: "sorts_by_key qs" and qs': "sorts_by_key qs'" and ne: "pnts \<noteq> []"
  shows "\<exists>dv idm. makePntsUnique qs qs' pnts eps = Some (dv, idm)
     \<and> length idm = length pnts
     \<and> (\<forall>v \<in> set idm. v < length dv)
     \<and> length dv \<le> length pnts
     \<and> (\<exists>js. distinct js
          \<and> set js = {j. j < length pnts \<and>
                (j = 0 \<or> \<not> maxNormDist (map fst (qs (zip pnts [0..<length pnts])) ! j)
                      (map fst (qs (zip pnts [0..<length pnts])) ! (j - 1)) \<le> eps)}
          \<and> dv = map ((!) (map fst (qs (zip pnts [0..<length pnts])))) js)"
proof -
  define n where "n = length pnts"
  define Z where "Z = qs (zip pnts [0..<n])"
  define S where "S = map fst Z"
  define P where "P = map snd Z"
  define c where "c = adj eps S"
  have n0: "0 < n" using ne by (simp add: n_def)
  have mZ: "mset Z = mset (zip pnts [0..<n])" using qs by (simp add: Z_def sorts_by_key_def)
  have lZ: "length Z = n" using arg_cong [OF mZ, of size] by (simp add: n_def)
  have lS: "length S = n" and lP: "length P = n" by (simp_all add: S_def P_def lZ)
  have mP: "mset P = mset [0..<n]"
  proof -
    have "mset P = image_mset snd (mset Z)" by (simp add: P_def)
    also have "\<dots> = mset (map snd (zip pnts [0..<n]))" by (simp add: mZ)
    also have "\<dots> = mset [0..<n]" by (simp add: n_def)
    finally show ?thesis .
  qed
  have lc: "length c + 1 = n" using n0 by (simp add: c_def lS)
  have sub: "size_t_sub n 1 = n - 1" using n0 by (simp add: size_t_sub_def)
  \<comment> \<open>the intervals\<close>
  from find_intervals_spec [of 0 S eps "[]" False] lS n0
  obtain ivs ident where fi: "find_intervals eps S (n - 1) 0 [] False = Some (ivs, ident)"
    and ivs: "(if ident then ivs @ [n] else ivs) = ivs_spec 0 False c"
    by (auto simp: c_def)
  \<comment> \<open>the bubble sort\<close>
  from sort_pairs_runs [of 0 P c] lP lc n0
  obtain P' where sp: "sort_pairs (ivs_spec 0 False c) P = Some P'" and rm: "run_min c 0 P' P"
    by auto
  have si: "sort_intervals (if ident then ivs @ [n] else ivs) 0 P = Some P'"
    using sort_intervals_pairs [of "[]" "ivs_spec 0 False c" P] sp by (simp add: ivs)
  have lP': "length P' = n" and mP': "mset P' = mset [0..<n]"
    using rm by (simp_all add: run_min_def lP mP)
  have dP': "distinct P'" using mP' by (metis distinct_upt mset_eq_imp_distinct_iff)
  have sP': "set P' = {0..<n}" using mP' by (metis mset_eq_setD set_upt)
  have head_le: "P' ! rstart c j \<le> P' ! j" if "j < n" for j
    using rm that by (simp add: run_min_def lP)
  \<comment> \<open>the collapse of the ids\<close>
  have inP': "P' ! j < n" if "j < n" for j
    using that sP' lP' nth_mem [of j P'] by auto
  have "collapsed c P' 0 [0..<n]"
    using inP' n0 by (auto simp: collapsed_def lP')
  with collapse_ids_runs [of S P' 0 eps "[0..<n]"] lS lP' dP' sP' n0
  obtain idm1 where ci: "collapse_ids eps S P' (n - 1) 0 [0..<n] = Some idm1"
    and col: "collapsed c P' (n - 1) idm1"
    by (auto simp: c_def)
  have l1: "length idm1 = n" using col by (simp add: collapsed_def lP')
  have id1: "idm1 ! (P' ! j) = P' ! rstart c j" if "j < n" for j
    using col that by (simp add: collapsed_def lP')
  have ex: "\<exists>j < n. P' ! j = k" if "k < n" for k
    using that sP' lP' by (metis atLeastLessThan_iff in_set_conv_nth zero_le)
  have F2: "idm1 ! k \<le> k" if "k < n" for k
  proof -
    from ex [OF that] obtain j where "j < n" "P' ! j = k" by blast
    with id1 [of j] head_le [of j] show ?thesis by simp
  qed
  have F3: "idm1 ! (idm1 ! k) = idm1 ! k" if "k < n" for k
  proof -
    from ex [OF that] obtain j where j: "j < n" "P' ! j = k" by blast
    have "rstart c j < n" using rstart_le [of c j] j(1) by simp
    from id1 [OF this] id1 [OF j(1)] j(2) show ?thesis by (simp add: rstart_idem)
  qed
  \<comment> \<open>the reverse permutation\<close>
  define Z2 where "Z2 = qs' (zip P' S)"
  define X where "X = map snd Z2"
  have mZ2: "mset Z2 = mset (zip P' S)" and sZ2: "sorted (map fst Z2)"
    using qs' by (simp_all add: Z2_def sorts_by_key_def)
  have lZ2: "length Z2 = n" using arg_cong [OF mZ2, of size] by (simp add: lP' lS)
  have lX: "length X = n" by (simp add: X_def lZ2)
  have "mset (map fst Z2) = image_mset fst (mset (zip P' S))" using mZ2 by (metis mset_map)
  also have "\<dots> = mset (map fst (zip P' S))" by simp
  also have "\<dots> = mset [0..<n]" by (simp add: lP' lS mP')
  finally have fZ2: "map fst Z2 = [0..<n]" using sZ2 by (intro sorted_perm_upt)
  have Z2: "Z2 = zip [0..<n] X" using zip_map_fst_snd [of Z2] by (simp add: fZ2 X_def)
  \<comment> \<open>deletion and compaction\<close>
  define dv where "dv = map ((!) X) (filter (\<lambda>i. \<not> idm1 ! i < i) [0..<n])"
  have nd: "null_dups idm1 n 0 (map Some X)
      = Some (map (\<lambda>i. if idm1 ! i < i then None else Some (X ! i)) [0..<n])"
  proof -
    have "map Some X = map (\<lambda>i. if i < 0 \<and> idm1 ! i < i then None else Some (X ! i)) [0..<n]"
      using lX by (intro nth_equalityI) auto
    then show ?thesis using null_dups_spec [OF l1, of 0 X] by simp
  qed
  have rn: "remove_null (map (\<lambda>i. if idm1 ! i < i then None else Some (X ! i)) [0..<n]) = dv"
    by (simp add: remove_null_map dv_def)
  \<comment> \<open>renumbering\<close>
  define idm2 where "idm2 = map (\<lambda>i. fixed_below idm1 (idm1 ! i)) [0..<n]"
  have re: "renumber n 0 0 idm1 = Some idm2"
  proof -
    have "idm1 = map (\<lambda>i. if i < 0 then fixed_below idm1 (idm1 ! i) else idm1 ! i) [0..<n]"
      using l1 by (intro nth_equalityI) auto
    moreover have "fixed_below idm1 0 = 0" by (simp add: fixed_below_def)
    ultimately show ?thesis
      using renumber_spec [OF l1, of 0] F2 F3 by (simp add: idm2_def)
  qed
  have res: "makePntsUnique qs qs' pnts eps = Some (dv, idm2)"
    using sub fi si ci nd rn re
    unfolding makePntsUnique_def Let_def X_def Z2_def P_def S_def Z_def n_def
    by simp
  \<comment> \<open>the properties\<close>
  have ldv: "length dv = fixed_below idm1 n"
  proof -
    have "filter (\<lambda>i. \<not> idm1 ! i < i) [0..<n] = filter (\<lambda>i. idm1 ! i = i) [0..<n]"
      using F2 by (intro filter_cong) (auto simp: order.order_iff_strict)
    then show ?thesis by (simp add: dv_def fixed_below_def)
  qed
  have valid: "v < length dv" if "v \<in> set idm2" for v
  proof -
    from that obtain i where i: "i < n" "v = fixed_below idm1 (idm1 ! i)"
      by (auto simp: idm2_def)
    define r where "r = idm1 ! i"
    have "r < n" "idm1 ! r = r" using F2 [OF i(1)] F3 [OF i(1)] i(1) by (simp_all add: r_def)
    then have "fixed_below idm1 (Suc r) = Suc (fixed_below idm1 r)" "Suc r \<le> n"
      by (simp_all add: fixed_below_Suc)
    with fixed_below_mono [of "Suc r" n idm1] show ?thesis by (simp add: ldv i(2) r_def)
  qed
  have "length dv \<le> n" by (simp add: dv_def) (metis diff_zero length_filter_le length_upt)
  moreover have "\<exists>js. distinct js
      \<and> set js = {j. j < n \<and> (j = 0 \<or> \<not> maxNormDist (S ! j) (S ! (j - 1)) \<le> eps)}
      \<and> dv = map ((!) S) js"
  proof -
    let ?\<phi> = "\<lambda>i. \<not> idm1 ! i < i"
    have head: "?\<phi> (P' ! j) \<longleftrightarrow> j = 0 \<or> \<not> maxNormDist (S ! j) (S ! (j - 1)) \<le> eps"
      if j: "j < n" for j
    proof -
      have rj: "rstart c j < n" using rstart_le [of c j] j by simp
      have "?\<phi> (P' ! j) \<longleftrightarrow> P' ! rstart c j = P' ! j"
        using id1 [OF j] head_le [OF j] by auto
      also have "\<dots> \<longleftrightarrow> rstart c j = j"
        using dP' j rj lP' by (simp add: nth_eq_iff_index_eq)
      also have "\<dots> \<longleftrightarrow> j = 0 \<or> \<not> c ! (j - 1)" by (rule rstart_fix_iff)
      also have "\<dots> \<longleftrightarrow> j = 0 \<or> \<not> maxNormDist (S ! j) (S ! (j - 1)) \<le> eps"
      proof (cases j)
        case 0
        then show ?thesis by simp
      next
        case (Suc i)
        with j lS show ?thesis by (simp add: c_def adj_nth)
      qed
      finally show ?thesis .
    qed
    define g where "g k = (THE j. j < n \<and> P' ! j = k)" for k
    have g: "g k < n \<and> P' ! g k = k" if "k < n" for k
    proof -
      from ex [OF that] obtain j where j: "j < n" "P' ! j = k" by blast
      have "\<exists>!j. j < n \<and> P' ! j = k"
        using j dP' lP' by (auto simp: nth_eq_iff_index_eq)
      from theI' [OF this] show ?thesis by (simp add: g_def)
    qed
    have gP: "g (P' ! j) = j" if "j < n" for j
    proof -
      from g [OF inP' [OF that]] have "g (P' ! j) < n" "P' ! g (P' ! j) = P' ! j" by simp_all
      with dP' lP' that show ?thesis by (simp add: nth_eq_iff_index_eq)
    qed
    have XS: "X ! k = S ! g k" if "k < n" for k
    proof -
      have "zip [0..<n] X ! k = (k, X ! k)" "k < length (zip [0..<n] X)"
        using that lX by simp_all
      then have "(k, X ! k) \<in> set Z2"
        unfolding Z2 by (metis nth_mem)
      then have "(k, X ! k) \<in> set (zip P' S)" using mZ2 by (metis mset_eq_setD)
      then obtain j where j: "j < n" "P' ! j = k" "S ! j = X ! k"
        using lP' lS by (auto simp: in_set_zip)
      from gP [OF j(1)] j show ?thesis by simp
    qed
    define ks where "ks = filter ?\<phi> [0..<n]"
    define js where "js = map g ks"
    have ksn: "k < n" if "k \<in> set ks" for k using that by (simp add: ks_def)
    have "inj_on g (set ks)"
    proof (rule inj_onI)
      fix a b assume "a \<in> set ks" "b \<in> set ks" "g a = g b"
      with g [OF ksn, of a] g [OF ksn, of b] show "a = b" by metis
    qed
    then have d: "distinct js" by (simp add: js_def distinct_map ks_def)
    have e: "dv = map ((!) S) js"
      unfolding dv_def js_def ks_def [symmetric] using XS ksn by simp
    have "j \<in> set js \<longleftrightarrow> j < n \<and> (j = 0 \<or> \<not> maxNormDist (S ! j) (S ! (j - 1)) \<le> eps)" for j
    proof
      assume "j \<in> set js"
      then obtain k where k: "k \<in> set ks" "j = g k" by (auto simp: js_def)
      from g [OF ksn [OF k(1)]] k(2) have jn: "j < n" and pj: "P' ! j = k" by simp_all
      from k(1) have "?\<phi> k" by (simp add: ks_def)
      with head [OF jn] pj jn
      show "j < n \<and> (j = 0 \<or> \<not> maxNormDist (S ! j) (S ! (j - 1)) \<le> eps)" by simp
    next
      assume a: "j < n \<and> (j = 0 \<or> \<not> maxNormDist (S ! j) (S ! (j - 1)) \<le> eps)"
      then have jn: "j < n" by simp
      with a head [OF jn] have "?\<phi> (P' ! j)" by simp
      with inP' [OF jn] have "P' ! j \<in> set ks" by (simp add: ks_def)
      with gP [OF jn] show "j \<in> set js" unfolding js_def by (metis image_eqI set_map)
    qed
    then have "set js = {j. j < n \<and> (j = 0 \<or> \<not> maxNormDist (S ! j) (S ! (j - 1)) \<le> eps)}"
      by blast
    with d e show ?thesis by blast
  qed
  ultimately show ?thesis
    using res valid by (simp add: idm2_def n_def S_def Z_def)
qed

subsection \<open>Name reconciliation and the constructor\<close>

lemma fill_names_length: "fill_names m v = Some v' \<Longrightarrow> length v' = length v"
  by (induction m arbitrary: v) (auto simp: vec_put_def split: if_splits)

lemma fill_names_total:
  "\<forall>(nm, i) \<in> set m. i < length v \<Longrightarrow> \<exists>v'. fill_names m v = Some v'"
  by (induction m arbitrary: v) (auto simp: vec_put_def)

lemma correct_names_total:
  assumes "length idn = length idm" "\<forall>v \<in> set idm. v < length idm"
    and "\<forall>(nm, i) \<in> set m. i < length idm"
  shows "\<exists>m'. correct_names idm idn m = Some m'"
  using assms(3)
proof (induction m)
  case Nil
  then show ?case by simp
next
  case (Cons e m)
  obtain nm i where e: "e = (nm, i)" by (cases e)
  from Cons.prems e have i: "i < length idm" by simp
  then have r: "idm ! i < length idm" using assms(2) by simp
  from Cons obtain m' where "correct_names idm idn m = Some m'" by auto
  with i r assms(1) show ?case by (simp add: e vec_at_def)
qed

lemma correct_names_result:
  "correct_names idm idn m = Some m' \<Longrightarrow> (nm, i) \<in> set m' \<Longrightarrow>
   nm \<in> fst ` set m \<and> i \<in> set idm"
proof (induction m arbitrary: m')
  case Nil
  then show ?case by simp
next
  case (Cons e m)
  obtain nm0 i0 where e: "e = (nm0, i0)" by (cases e)
  from Cons.prems(1) e have i0: "i0 < length idm"
    by (auto simp: vec_at_def split: if_splits)
  then have mem: "idm ! i0 \<in> set idm" by simp
  from Cons.prems(1) e i0 consider
      (drop) "correct_names idm idn m = Some m'"
    | (keep) z where "correct_names idm idn m = Some z" "m' = (nm0, i0) # z" "idm ! i0 = i0"
    | (move) z where "correct_names idm idn m = Some z" "m' = (nm0, idm ! i0) # z"
    by (auto simp: vec_at_def split: if_splits)
  then show ?case
  proof cases
    case drop
    from Cons.IH [OF drop Cons.prems(2)] show ?thesis by auto
  next
    case keep
    show ?thesis
    proof (cases "(nm, i) \<in> set z")
      case True
      from Cons.IH [OF keep(1) True] show ?thesis by auto
    next
      case False
      with Cons.prems(2) keep mem e show ?thesis by auto
    qed
  next
    case move
    show ?thesis
    proof (cases "(nm, i) \<in> set z")
      case True
      from Cons.IH [OF move(1) True] show ?thesis by auto
    next
      case False
      with Cons.prems(2) move mem e show ?thesis by auto
    qed
  qed
qed

lemma PointVec_ctor_result:
  assumes qs: "sorts_by_key qs" and qs': "sorts_by_key qs'" and ne: "pnts \<noteq> []"
    and names: "\<forall>(nm, i) \<in> set names. i < length pnts"
  shows "\<exists>s. PointVec_ctor qs qs' pnts names eps0 = Some s
     \<and> makePntsUnique qs qs' pnts (tolerance pnts eps0) = Some (data_vec s, pnt_id_map s)
     \<and> correctNameIDMapping (pnt_id_map s) names = Some (name_id_map s)
     \<and> fill_names (name_id_map s) (replicate (length (data_vec s)) []) = Some (id_to_name_map s)
     \<and> aabb s = AABB_range pnts \<and> rel_eps s = tolerance pnts eps0
     \<and> warnings s = (if length pnts > length (data_vec s)
                      then [DoublePoints (length pnts - length (data_vec s))] else [])"
proof -
  from makePntsUnique_result [OF qs qs' ne, of "tolerance pnts eps0"]
  obtain dv idm where mk: "makePntsUnique qs qs' pnts (tolerance pnts eps0) = Some (dv, idm)"
    and len: "length idm = length pnts" and valid: "\<forall>v \<in> set idm. v < length dv"
    and le: "length dv \<le> length pnts"
    by blast
  from names len have "\<forall>(nm, i) \<in> set names. i < length (replicate (length idm) ([] :: string))"
    by simp
  from fill_names_total [OF this]
  obtain idn where idn: "fill_names names (replicate (length idm) []) = Some idn" by blast
  from fill_names_length [OF idn] have lidn: "length idn = length idm" by simp
  have "\<forall>v \<in> set idm. v < length idm" using valid le len by auto
  from correct_names_total [OF lidn this] names len
  obtain m' where m': "correct_names idm idn names = Some m'" by auto
  have cn: "correctNameIDMapping idm names = Some m'"
    by (simp add: correctNameIDMapping_def idn m')
  have "\<forall>(nm, i) \<in> set m'. i < length (replicate (length dv) ([] :: string))"
    using correct_names_result [OF m'] valid by auto
  from fill_names_total [OF this]
  obtain itn where itn: "fill_names m' (replicate (length dv) []) = Some itn" by blast
  show ?thesis
    using mk cn itn
    by (simp add: PointVec_ctor_def Let_def tolerance_def [symmetric])
qed

subsection \<open>Construction\<close>

lemma maxNormDist_commute: "maxNormDist p q = maxNormDist q p"
  by (cases p; cases q) (simp add: abs_minus_commute)

text \<open>
  Claim C1, as the code has it. Construction compares only neighbours in the lexicographically
  sorted input. If in the sorted input \<open>S\<close> every two points within the tolerance of each other
  are linked by neighbours that are each within the tolerance of the next, then any two
  canonical points at different positions are farther apart (max-norm) than the tolerance.
  Without this condition nothing is said about two canonical points.
\<close>

theorem canonical_points_apart_when_chained:
  assumes "sorts_by_key qs" "sorts_by_key qs'" "pnts \<noteq> []"
    and "\<forall>(nm, i) \<in> set names. i < length pnts"
  defines "S \<equiv> map fst (qs (zip pnts [0..<length pnts]))"
  assumes chained: "\<forall>i j. i < j \<and> j < length pnts
      \<and> maxNormDist (S ! i) (S ! j) \<le> tolerance pnts eps0
      \<longrightarrow> (\<forall>k. i \<le> k \<and> k < j \<longrightarrow> maxNormDist (S ! Suc k) (S ! k) \<le> tolerance pnts eps0)"
  shows "\<exists>s. PointVec_ctor qs qs' pnts names eps0 = Some s
     \<and> rel_eps s = tolerance pnts eps0
     \<and> (\<forall>a b. a < length (data_vec s) \<and> b < length (data_vec s) \<and> a \<noteq> b
          \<longrightarrow> rel_eps s < maxNormDist (data_vec s ! a) (data_vec s ! b))"
proof -
  let ?tol = "tolerance pnts eps0"
  from PointVec_ctor_result [OF assms(1-4), of eps0]
  obtain s where c: "PointVec_ctor qs qs' pnts names eps0 = Some s"
    and mk: "makePntsUnique qs qs' pnts ?tol = Some (data_vec s, pnt_id_map s)"
    and e: "rel_eps s = ?tol"
    by blast
  from makePntsUnique_result [OF assms(1-3), of ?tol, folded S_def]
  obtain dv0 idm0 js where r: "makePntsUnique qs qs' pnts ?tol = Some (dv0, idm0)"
    and d: "distinct js"
    and sj: "set js = {j. j < length pnts \<and> (j = 0 \<or> \<not> maxNormDist (S ! j) (S ! (j - 1)) \<le> ?tol)}"
    and dv0: "dv0 = map ((!) S) js"
    by blast
  from r mk dv0 have dv: "data_vec s = map ((!) S) js" by simp
  have apart: "?tol < maxNormDist (S ! h) (S ! h')" if h: "h \<in> set js" "h' \<in> set js" "h < h'" for h h'
  proof (rule ccontr)
    assume "\<not> ?tol < maxNormDist (S ! h) (S ! h')"
    then have le: "maxNormDist (S ! h) (S ! h') \<le> ?tol" by simp
    from h(2,3) sj have h': "h' < length pnts" "\<not> maxNormDist (S ! h') (S ! (h' - 1)) \<le> ?tol"
      by auto
    have k: "h \<le> h' - 1 \<and> h' - 1 < h'" using h(3) by simp
    from chained [rule_format, of h h' "h' - 1"] h(3) h'(1) le k
    have "maxNormDist (S ! Suc (h' - 1)) (S ! (h' - 1)) \<le> ?tol" by blast
    moreover have "Suc (h' - 1) = h'" using h(3) by simp
    ultimately show False using h'(2) by simp
  qed
  have "rel_eps s < maxNormDist (data_vec s ! a) (data_vec s ! b)"
    if ab: "a < length (data_vec s)" "b < length (data_vec s)" "a \<noteq> b" for a b
  proof -
    from ab dv have la: "a < length js" and lb: "b < length js" by simp_all
    then have ma: "js ! a \<in> set js" and mb: "js ! b \<in> set js" by simp_all
    from d la lb ab(3) have ne: "js ! a \<noteq> js ! b" by (simp add: nth_eq_iff_index_eq)
    have va: "data_vec s ! a = S ! (js ! a)" and vb: "data_vec s ! b = S ! (js ! b)"
      using la lb by (simp_all add: dv)
    show ?thesis
    proof (cases "js ! a < js ! b")
      case True
      from apart [OF ma mb True] show ?thesis by (simp add: e va vb)
    next
      case False
      with ne have "js ! b < js ! a" by simp
      from apart [OF mb ma this] show ?thesis
        by (simp add: e va vb maxNormDist_commute [of "S ! (js ! a)"])
    qed
  qed
  with c e show ?thesis by blast
qed

text \<open>
  An instance: of \<open>(0, 0, 0)\<close>, \<open>(3, 0, 0)\<close>, \<open>(4, 0, 0)\<close> with tolerance 1 the last two are
  merged, and the two canonical points are farther apart than 1.
\<close>

theorem canonical_points_apart_when_chained_witness:
  "sorts_by_key (sort_key fst :: (point \<times> nat) list \<Rightarrow> (point \<times> nat) list)
   \<and> sorts_by_key (sort_key fst :: (nat \<times> point) list \<Rightarrow> (nat \<times> point) list)
   \<and> [(0, 0, 0), (3, 0, 0), (4, 0, 0)] \<noteq> ([] :: point list)
   \<and> (\<exists>s. PointVec_ctor (sort_key fst) (sort_key fst) [(0, 0, 0), (3, 0, 0), (4, 0, 0)] [] (1 / 4) = Some s
        \<and> data_vec s = [(0, 0, 0), (3, 0, 0)] \<and> rel_eps s = 1
        \<and> rel_eps s < maxNormDist (data_vec s ! 0) (data_vec s ! 1)
        \<and> rel_eps s < maxNormDist (data_vec s ! 1) (data_vec s ! 0))"
proof -
  let ?pnts = "[(0, 0, 0), (3, 0, 0), (4, 0, 0)] :: point list"
  let ?S = "map fst (sort_key fst (zip ?pnts [0..<length ?pnts]))"
  have S: "?S = ?pnts" by (simp add: less_eq_prod_def)
  have tol: "tolerance ?pnts (1 / 4) = 1" by (simp add: tolerance_def sqrt_16)
  have h3: "?pnts \<noteq> []" by simp
  have h4: "\<forall>(nm, i) \<in> set ([] :: (string \<times> nat) list). i < length ?pnts" by simp
  have ch: "\<forall>i j. i < j \<and> j < length ?pnts
      \<and> maxNormDist (?S ! i) (?S ! j) \<le> tolerance ?pnts (1 / 4)
      \<longrightarrow> (\<forall>k. i \<le> k \<and> k < j \<longrightarrow> maxNormDist (?S ! Suc k) (?S ! k) \<le> tolerance ?pnts (1 / 4))"
    unfolding S tol
  proof (intro allI impI, elim conjE)
    fix i j k :: nat
    assume a: "i < j" "j < length ?pnts" "maxNormDist (?pnts ! i) (?pnts ! j) \<le> 1" "i \<le> k" "k < j"
    from a(1,2) have "j < 3" "i < j" by simp_all
    then have "(i = 0 \<and> j = 1) \<or> (i = 0 \<and> j = 2) \<or> (i = 1 \<and> j = 2)" by arith
    then consider "i = 0 \<and> j = 1" | "i = 0 \<and> j = 2" | "i = 1 \<and> j = 2" by blast
    then show "maxNormDist (?pnts ! Suc k) (?pnts ! k) \<le> 1"
    proof cases
      case 1
      with a(3) show ?thesis by simp
    next
      case 2
      with a(3) show ?thesis by simp
    next
      case 3
      with a(4,5) have "k = 1" by simp
      then show ?thesis by simp
    qed
  qed
  from canonical_points_apart_when_chained
    [OF sorts_by_key_sort_key sorts_by_key_sort_key h3 h4 ch]
  obtain s where c: "PointVec_ctor (sort_key fst) (sort_key fst) ?pnts [] (1 / 4) = Some s"
    and r: "\<forall>a b. a < length (data_vec s) \<and> b < length (data_vec s) \<and> a \<noteq> b
          \<longrightarrow> rel_eps s < maxNormDist (data_vec s ! a) (data_vec s ! b)"
    by blast
  from c [unfolded ctor_extreme_duplicate]
  have v: "data_vec s = [(0, 0, 0), (3, 0, 0)]" "rel_eps s = 1" by auto
  from r [rule_format, of 0 1] r [rule_format, of 1 0] v
  have "rel_eps s < maxNormDist (data_vec s ! 0) (data_vec s ! 1)"
    "rel_eps s < maxNormDist (data_vec s ! 1) (data_vec s ! 0)" by simp_all
  with c v have "\<exists>s. PointVec_ctor (sort_key fst) (sort_key fst) ?pnts [] (1 / 4) = Some s
        \<and> data_vec s = [(0, 0, 0), (3, 0, 0)] \<and> rel_eps s = 1
        \<and> rel_eps s < maxNormDist (data_vec s ! 0) (data_vec s ! 1)
        \<and> rel_eps s < maxNormDist (data_vec s ! 1) (data_vec s ! 0)"
    by blast
  with h3 show ?thesis by (intro conjI sorts_by_key_sort_key)
qed

text \<open>
  Claim C1 as stated fails: of the points \<open>(0, 0, 0)\<close>, \<open>(1, 4, 0)\<close>, \<open>(3, 0, 0)\<close> with relative
  epsilon 3/5 (tolerance 3) all three remain, although the first and the third are within the
  tolerance of each other; the second lies between them in the sorted order and is far from
  both.
\<close>

theorem canonical_points_within_tolerance:
  "map_option data_vec
     (PointVec_ctor (sort_key fst) (sort_key fst) [(0, 0, 0), (1, 4, 0), (3, 0, 0)] [] (3 / 5))
   = Some [(0, 0, 0), (1, 4, 0), (3, 0, 0)]
   \<and> map_option rel_eps
     (PointVec_ctor (sort_key fst) (sort_key fst) [(0, 0, 0), (1, 4, 0), (3, 0, 0)] [] (3 / 5))
   = Some 3
   \<and> (0, 0, 0) \<noteq> (3 :: real, 0 :: real, 0 :: real)
   \<and> \<not> 3 < maxNormDist (0, 0, 0) (3, 0, 0)"
  by (simp add: ctor_three_apart)

lemma fold_AABB_update:
  "fold (\<lambda>q b. AABB_update b q) ps ((a0, b0, c0), (a1, b1, c1))
   = ((fold min (map fst ps) a0, fold min (map (fst \<circ> snd) ps) b0,
       fold min (map (snd \<circ> snd) ps) c0),
      (fold max (map fst ps) a1, fold max (map (fst \<circ> snd) ps) b1,
       fold max (map (snd \<circ> snd) ps) c1))"
  by (induction ps arbitrary: a0 b0 c0 a1 b1 c1) (auto simp: min.commute max.commute)

lemma AABB_range_corners:
  assumes "pnts \<noteq> []"
  shows "AABB_range pnts
     = ((Min (fst ` set pnts), Min ((fst \<circ> snd) ` set pnts), Min ((snd \<circ> snd) ` set pnts)),
        (Max (fst ` set pnts), Max ((fst \<circ> snd) ` set pnts), Max ((snd \<circ> snd) ` set pnts)))"
proof -
  from assms obtain x y z ps where p: "pnts = (x, y, z) # ps" by (cases pnts) auto
  have m: "Min (f ` set pnts) = fold min (map f ps) (f (x, y, z))"
    and M: "Max (f ` set pnts) = fold max (map f ps) (f (x, y, z))" for f :: "point \<Rightarrow> real"
    using Min.set_eq_fold [of "f (x, y, z)" "map f ps"] Max.set_eq_fold [of "f (x, y, z)" "map f ps"]
    by (simp_all add: p)
  show ?thesis unfolding m M by (simp add: p fold_AABB_update)
qed

text \<open>
  Claim C9, as the code has it. The bounding box held by the registry immediately after
  construction has as corners the coordinate-wise minima and maxima of the raw input points,
  including those removed as duplicates.
\<close>

theorem bounding_box_after_construction:
  assumes "sorts_by_key qs" "sorts_by_key qs'" "pnts \<noteq> []"
    and "\<forall>(nm, i) \<in> set names. i < length pnts"
  shows "\<exists>s. PointVec_ctor qs qs' pnts names eps0 = Some s
     \<and> aabb s
       = ((Min (fst ` set pnts), Min ((fst \<circ> snd) ` set pnts), Min ((snd \<circ> snd) ` set pnts)),
          (Max (fst ` set pnts), Max ((fst \<circ> snd) ` set pnts), Max ((snd \<circ> snd) ` set pnts)))"
  using PointVec_ctor_result [OF assms, of eps0] AABB_range_corners [OF assms(3)] by auto

theorem bounding_box_after_construction_witness:
  "sorts_by_key (sort_key fst :: (point \<times> nat) list \<Rightarrow> (point \<times> nat) list)
   \<and> sorts_by_key (sort_key fst :: (nat \<times> point) list \<Rightarrow> (nat \<times> point) list)
   \<and> [(0, 0, 0), (3, 0, 0), (4, 0, 0)] \<noteq> ([] :: point list)
   \<and> (\<exists>s. PointVec_ctor (sort_key fst) (sort_key fst) [(0, 0, 0), (3, 0, 0), (4, 0, 0)] [] (1 / 4) = Some s
        \<and> aabb s = ((0, 0, 0), (4, 0, 0)))"
proof -
  have h3: "[(0, 0, 0), (3, 0, 0), (4, 0, 0)] \<noteq> ([] :: point list)" by simp
  have h4: "\<forall>(nm, i) \<in> set ([] :: (string \<times> nat) list).
      i < length [(0, 0, 0), (3, 0, 0), (4 :: real, 0 :: real, 0 :: real)]" by simp
  from bounding_box_after_construction [OF sorts_by_key_sort_key sorts_by_key_sort_key h3 h4, of "1 / 4"]
  show ?thesis by (simp add: sorts_by_key_sort_key)
qed

text \<open>
  Claim C9 as stated fails: of \<open>(0, 0, 0)\<close>, \<open>(3, 0, 0)\<close>, \<open>(4, 0, 0)\<close> with tolerance 1 the
  point \<open>(4, 0, 0)\<close> is removed, and the box still reaches to \<open>(4, 0, 0)\<close>, while the box of the
  canonical points ends at \<open>(3, 0, 0)\<close>.
\<close>

theorem bounding_box_keeps_removed_extreme:
  "map_option data_vec
     (PointVec_ctor (sort_key fst) (sort_key fst) [(0, 0, 0), (3, 0, 0), (4, 0, 0)] [] (1 / 4))
   = Some [(0, 0, 0), (3, 0, 0)]
   \<and> map_option aabb
     (PointVec_ctor (sort_key fst) (sort_key fst) [(0, 0, 0), (3, 0, 0), (4, 0, 0)] [] (1 / 4))
   = Some ((0, 0, 0), (4, 0, 0))
   \<and> AABB_range [(0, 0, 0), (3, 0, 0)] = ((0, 0, 0), (3, 0, 0))
   \<and> AABB_range [(0, 0, 0), (3, 0, 0), (4, 0, 0)] = ((0, 0, 0), (4, 0, 0))"
  by (simp add: ctor_extreme_duplicate)

text \<open>
  Claim C7. The points \<open>(0, 0, 0)\<close>, \<open>(0, 0, 1)\<close>, \<open>(0, 0, 2)\<close> collapse onto one canonical
  point at tolerance 1 (relative epsilon 1/2); the second is named \<open>x\<close> and the third \<open>y\<close>.
  Both names remain in the name map, both with id 0, while the id-to-name entry of id 0 is
  \<open>y\<close>: the name \<open>x\<close> resolves to an id whose reverse entry is another name, and two names
  survive for one canonical point. The side table \<^verbatim>\<open>id_names\<close> read at line 204 is not
  updated when line 210 gives the point its first name, so the second name is not seen as a
  second occurrence. The only warning is the count of duplicates.
\<close>

theorem two_names_for_one_point:
  assumes "sorts_by_key qs" "sorts_by_key qs'"
  shows "PointVec_ctor qs qs' [(0, 0, 0), (0, 0, 1), (0, 0, 2)] [(''x'', 1), (''y'', 2)] (1 / 2)
   = Some \<lparr> data_vec = [(0, 0, 0)], name_id_map = [(''x'', 0), (''y'', 0)],
       id_to_name_map = [''y''], pnt_id_map = [0, 0, 0], aabb = ((0, 0, 0), (0, 0, 2)),
       rel_eps = 1, warnings = [DoublePoints 2] \<rparr>"
  by (simp add: eval_simps sorts_by_key_distinct [OF assms(1)] sorts_by_key_distinct [OF assms(2)])

theorem two_names_for_one_point_witness:
  "sorts_by_key (sort_key fst :: (point \<times> nat) list \<Rightarrow> (point \<times> nat) list)
   \<and> sorts_by_key (sort_key fst :: (nat \<times> point) list \<Rightarrow> (nat \<times> point) list)
   \<and> map_option name_id_map
       (PointVec_ctor (sort_key fst) (sort_key fst) [(0, 0, 0), (0, 0, 1), (0, 0, 2)]
          [(''x'', 1), (''y'', 2)] (1 / 2))
     = Some [(''x'', 0), (''y'', 0)]
   \<and> map_option id_to_name_map
       (PointVec_ctor (sort_key fst) (sort_key fst) [(0, 0, 0), (0, 0, 1), (0, 0, 2)]
          [(''x'', 1), (''y'', 2)] (1 / 2))
     = Some [''y'']
   \<and> [''y''] ! 0 \<noteq> ''x''"
  unfolding two_names_for_one_point [OF sorts_by_key_sort_key sorts_by_key_sort_key]
  by (simp add: sorts_by_key_sort_key)

subsection \<open>Insertion\<close>

lemma find_if_le: "find_if P xs \<le> length xs"
  by (induction xs) auto

lemma find_if_less_iff: "find_if P xs < length xs \<longleftrightarrow> (\<exists>x \<in> set xs. P x)"
  by (induction xs) auto

lemma find_if_holds: "find_if P xs < length xs \<Longrightarrow> P (xs ! find_if P xs)"
  by (induction xs) auto

lemma find_if_first: "j < find_if P xs \<Longrightarrow> \<not> P (xs ! j)"
  by (induction xs arbitrary: j) (auto simp: nth_Cons split: nat.splits if_splits)

text \<open>
  Claim C2. If some canonical point is within the tolerance (max-norm) of \<open>p\<close>, then
  \<^verbatim>\<open>push_back(p)\<close> leaves the canonical points as they are, appends exactly one entry to the
  id map, and returns the id of an existing canonical point within the tolerance of \<open>p\<close>,
  namely the first one.
\<close>

theorem push_back_existing_point:
  assumes "\<exists>q \<in> set (data_vec s). maxNormDist q p \<le> rel_eps s"
  shows "data_vec (snd (push_back s p)) = data_vec s
       \<and> pnt_id_map (snd (push_back s p)) = pnt_id_map s @ [fst (push_back s p)]
       \<and> fst (push_back s p) < length (data_vec s)
       \<and> maxNormDist (data_vec s ! fst (push_back s p)) p \<le> rel_eps s
       \<and> (\<forall>j < fst (push_back s p). \<not> maxNormDist (data_vec s ! j) p \<le> rel_eps s)"
proof -
  let ?P = "\<lambda>q. maxNormDist q p \<le> rel_eps s"
  let ?i = "find_if ?P (data_vec s)"
  from assms have lt: "?i < length (data_vec s)" by (simp add: find_if_less_iff)
  then have u: "uniqueInsert s p = (?i, s)" by (simp add: uniqueInsert_def)
  have pb: "push_back s p =
      (?i, s \<lparr> pnt_id_map := pnt_id_map s @ [?i], id_to_name_map := id_to_name_map s @ [[]] \<rparr>)"
    by (simp add: push_back_def u size_t_sub_def)
  show ?thesis
    using lt find_if_holds [of ?P "data_vec s"] find_if_first [of _ ?P "data_vec s"]
    by (simp add: pb)
qed

theorem push_back_existing_point_witness:
  "(\<exists>q \<in> set (data_vec one_named_point). maxNormDist q (0, 0, 0) \<le> rel_eps one_named_point)
   \<and> data_vec (snd (push_back one_named_point (0, 0, 0))) = [(0, 0, 0)]
   \<and> pnt_id_map (snd (push_back one_named_point (0, 0, 0))) = [0, 0]
   \<and> fst (push_back one_named_point (0, 0, 0)) = 0"
proof -
  have h: "\<exists>q \<in> set (data_vec one_named_point). maxNormDist q (0, 0, 0) \<le> rel_eps one_named_point"
    by (simp add: one_named_point_def)
  from push_back_existing_point [OF h] h show ?thesis
    by (simp add: one_named_point_def)
qed





lemma uniqueInsert_facts:
  assumes "uniqueInsert s p = (i, s')"
  shows "i < length (data_vec s')" "length (data_vec s) \<le> length (data_vec s')"
    "length (data_vec s') \<le> Suc (length (data_vec s))"
    "pnt_id_map s' = pnt_id_map s" "id_to_name_map s' = id_to_name_map s"
    "name_id_map s' = name_id_map s" "warnings s' = warnings s" "rel_eps s' = rel_eps s"
  using assms find_if_le [of "\<lambda>q. maxNormDist q p \<le> rel_eps s" "data_vec s"]
  by (auto simp: uniqueInsert_def Let_def size_t_sub_def split: if_splits)

lemma apply_insert_facts:
  assumes "\<forall>v \<in> set (pnt_id_map s). v < length (data_vec s)"
  shows "\<forall>v \<in> set (pnt_id_map (apply_insert s x)). v < length (data_vec (apply_insert s x))"
    and "length (pnt_id_map (apply_insert s x))
         = length (pnt_id_map s) + (if name_in_use s x then 0 else 1)"
    and "length (id_to_name_map (apply_insert s x)) = Suc (length (id_to_name_map s))"
    and "length (data_vec (apply_insert s x)) \<le> Suc (length (data_vec s))"
proof -
  have *: "(\<forall>v \<in> set (pnt_id_map (apply_insert s x)). v < length (data_vec (apply_insert s x)))
     \<and> length (pnt_id_map (apply_insert s x))
         = length (pnt_id_map s) + (if name_in_use s x then 0 else 1)
     \<and> length (id_to_name_map (apply_insert s x)) = Suc (length (id_to_name_map s))
     \<and> length (data_vec (apply_insert s x)) \<le> Suc (length (data_vec s))"
  proof (cases x)
    case (Insert p)
    obtain i s' where u: "uniqueInsert s p = (i, s')" by (cases "uniqueInsert s p")
    from uniqueInsert_facts [OF u] assms Insert show ?thesis
      by (auto simp: push_back_def u Let_def)
  next
    case (InsertNamed p name)
    obtain i s' where u: "uniqueInsert s p = (i, s')" by (cases "uniqueInsert s p")
    show ?thesis
    proof (cases name)
      case None
      from uniqueInsert_facts [OF u] assms InsertNamed None show ?thesis
        by (auto simp: push_back_named_def u Let_def)
    next
      case (Some nm)
      show ?thesis
      proof (cases "map_of (name_id_map s) nm")
        case None
        from uniqueInsert_facts [OF u] assms InsertNamed Some None show ?thesis
          by (auto simp: push_back_named_def u Let_def)
      next
        case (Some j)
        with assms InsertNamed \<open>name = Some nm\<close> show ?thesis
          by (auto simp: push_back_named_def)
      qed
    qed
  qed
  show "\<forall>v \<in> set (pnt_id_map (apply_insert s x)). v < length (data_vec (apply_insert s x))"
    and "length (pnt_id_map (apply_insert s x))
         = length (pnt_id_map s) + (if name_in_use s x then 0 else 1)"
    and "length (id_to_name_map (apply_insert s x)) = Suc (length (id_to_name_map s))"
    and "length (data_vec (apply_insert s x)) \<le> Suc (length (data_vec s))"
    using * by blast+
qed

lemma inserts_id_map:
  assumes "\<forall>v \<in> set (pnt_id_map s). v < length (data_vec s)"
  shows "length (pnt_id_map (inserts s ops)) = length (pnt_id_map s) + recorded s ops
       \<and> (\<forall>v \<in> set (pnt_id_map (inserts s ops)). v < length (data_vec (inserts s ops)))"
  using assms
proof (induction ops arbitrary: s)
  case Nil
  then show ?case by simp
next
  case (Cons x ops)
  from apply_insert_facts(1) [OF Cons.prems]
  have inv: "\<forall>v \<in> set (pnt_id_map (apply_insert s x)). v < length (data_vec (apply_insert s x))" .
  from Cons.IH [OF inv] apply_insert_facts(2) [OF Cons.prems, of x] show ?case by simp
qed

text \<open>
  Claim C4, as the code has it. After construction and any sequence of insertions the id map
  has one entry for each point of the original load and one for each insertion that was not
  rejected because its name was already in use (such an insertion adds no entry), and every
  entry is a valid index into the canonical points.
\<close>

theorem id_remap_after_inserts:
  assumes "sorts_by_key qs" "sorts_by_key qs'" "pnts \<noteq> []"
    and "\<forall>(nm, i) \<in> set names. i < length pnts"
  shows "\<exists>s0. PointVec_ctor qs qs' pnts names eps0 = Some s0
     \<and> length (pnt_id_map (inserts s0 ops)) = length pnts + recorded s0 ops
     \<and> (\<forall>v \<in> set (pnt_id_map (inserts s0 ops)). v < length (data_vec (inserts s0 ops)))"
proof -
  from PointVec_ctor_result [OF assms, of eps0]
  obtain s0 where c: "PointVec_ctor qs qs' pnts names eps0 = Some s0"
    and mk: "makePntsUnique qs qs' pnts (tolerance pnts eps0) = Some (data_vec s0, pnt_id_map s0)"
    by blast
  from makePntsUnique_result [OF assms(1-3), of "tolerance pnts eps0"] mk
  have len: "length (pnt_id_map s0) = length pnts"
    and valid: "\<forall>v \<in> set (pnt_id_map s0). v < length (data_vec s0)"
    by auto
  from inserts_id_map [OF valid, of ops] c len show ?thesis by simp
qed

theorem id_remap_after_inserts_witness:
  "sorts_by_key (sort_key fst :: (point \<times> nat) list \<Rightarrow> (point \<times> nat) list)
   \<and> sorts_by_key (sort_key fst :: (nat \<times> point) list \<Rightarrow> (nat \<times> point) list)
   \<and> [(0, 0, 0)] \<noteq> ([] :: point list)
   \<and> (\<exists>s0. PointVec_ctor (sort_key fst) (sort_key fst) [(0, 0, 0)] [(''A'', 0)] 1 = Some s0
        \<and> length (pnt_id_map (inserts s0
             [InsertNamed (1, 1, 1) (Some ''A''), Insert (0, 0, 0), InsertNamed (2, 2, 2) (Some ''B'')]))
           = length [(0 :: real, 0 :: real, 0 :: real)] + recorded s0
             [InsertNamed (1, 1, 1) (Some ''A''), Insert (0, 0, 0), InsertNamed (2, 2, 2) (Some ''B'')]
        \<and> pnt_id_map (inserts s0
             [InsertNamed (1, 1, 1) (Some ''A''), Insert (0, 0, 0), InsertNamed (2, 2, 2) (Some ''B'')])
           = [0, 0, 1])"
proof -
  let ?ops = "[InsertNamed (1, 1, 1) (Some ''A''), Insert (0, 0, 0), InsertNamed (2, 2, 2) (Some ''B'')]"
  have h3: "[(0, 0, 0)] \<noteq> ([] :: point list)" by simp
  have h4: "\<forall>(nm, i) \<in> set [(''A'', 0)]. i < length [(0 :: real, 0 :: real, 0 :: real)]" by simp
  have e: "pnt_id_map (inserts one_named_point ?ops) = [0, 0, 1]"
    by (simp add: one_named_point_def push_back_named_def push_back_def uniqueInsert_def
        size_t_sub_def map_assign_def)
  from id_remap_after_inserts [OF sorts_by_key_sort_key sorts_by_key_sort_key h3 h4, of 1 ?ops]
  obtain s0 where c: "PointVec_ctor (sort_key fst) (sort_key fst) [(0, 0, 0)] [(''A'', 0)] 1 = Some s0"
    and r: "length (pnt_id_map (inserts s0 ?ops))
        = length [(0 :: real, 0 :: real, 0 :: real)] + recorded s0 ?ops"
    by blast
  from c have "s0 = one_named_point" unfolding ctor_one_named_point by simp
  with e have "pnt_id_map (inserts s0 ?ops) = [0, 0, 1]" by simp
  with c r have "\<exists>s0. PointVec_ctor (sort_key fst) (sort_key fst) [(0, 0, 0)] [(''A'', 0)] 1 = Some s0
        \<and> length (pnt_id_map (inserts s0 ?ops))
           = length [(0 :: real, 0 :: real, 0 :: real)] + recorded s0 ?ops
        \<and> pnt_id_map (inserts s0 ?ops) = [0, 0, 1]"
    by blast
  with h3 show ?thesis by (intro conjI sorts_by_key_sort_key)
qed

text \<open>
  Claim C4 as stated fails: inserting a second point under the name \<open>A\<close>, which is in use,
  leaves the id map with its single entry although two points have been passed in.
\<close>

theorem id_remap_skips_rejected_insert:
  "PointVec_ctor (sort_key fst) (sort_key fst) [(0, 0, 0)] [(''A'', 0)] 1 = Some one_named_point
   \<and> length (pnt_id_map (push_back_named one_named_point (1, 1, 1) (Some ''A''))) = 1
   \<and> length (pnt_id_map (push_back_named one_named_point (1, 1, 1) (Some ''A'')))
       \<noteq> length [(0 :: real, 0 :: real, 0 :: real)] + 1"
  by (simp add: ctor_one_named_point) (simp add: one_named_point_def push_back_named_def)

text \<open>
  Claim C5. Every call of \<^verbatim>\<open>push_back\<close> appends an entry to the id-to-name vector, also
  when the point is merged with an existing one and no canonical point is added. In the
  registry built from \<open>(0, 0, 0)\<close> named \<open>A\<close>, inserting \<open>(0, 0, 0)\<close> again leaves one
  canonical point and two id-to-name entries; inserting then the new point \<open>(1, 1, 1)\<close> named
  \<open>B\<close> gives two canonical points and three entries, and \<open>B\<close>, which has id 1, stands at
  index 2 of the vector that the constructor builds indexed by id.
\<close>

theorem id_to_name_misaligned:
  assumes "sorts_by_key qs" "sorts_by_key qs'"
  shows "PointVec_ctor qs qs' [(0, 0, 0)] [(''A'', 0)] 1 = Some one_named_point
   \<and> data_vec (inserts one_named_point [Insert (0, 0, 0), InsertNamed (1, 1, 1) (Some ''B'')])
       = [(0, 0, 0), (1, 1, 1)]
   \<and> name_id_map (inserts one_named_point [Insert (0, 0, 0), InsertNamed (1, 1, 1) (Some ''B'')])
       = [(''A'', 0), (''B'', 1)]
   \<and> id_to_name_map (inserts one_named_point [Insert (0, 0, 0), InsertNamed (1, 1, 1) (Some ''B'')])
       = [''A'', [], ''B'']
   \<and> length (id_to_name_map (snd (push_back one_named_point (0, 0, 0)))) = 2
   \<and> length (data_vec (snd (push_back one_named_point (0, 0, 0)))) = 1"
proof -
  have "PointVec_ctor qs qs' [(0, 0, 0)] [(''A'', 0)] 1 = Some one_named_point"
    by (simp add: eval_simps sorts_by_key_distinct [OF assms(1)]
        sorts_by_key_distinct [OF assms(2)] one_named_point_def)
  then show ?thesis
    by (simp add: one_named_point_def push_back_def push_back_named_def uniqueInsert_def
        size_t_sub_def map_assign_def)
qed

theorem id_to_name_misaligned_witness:
  "sorts_by_key (sort_key fst :: (point \<times> nat) list \<Rightarrow> (point \<times> nat) list)
   \<and> sorts_by_key (sort_key fst :: (nat \<times> point) list \<Rightarrow> (nat \<times> point) list)
   \<and> PointVec_ctor (sort_key fst) (sort_key fst) [(0, 0, 0)] [(''A'', 0)] 1 = Some one_named_point
   \<and> id_to_name_map (inserts one_named_point [Insert (0, 0, 0), InsertNamed (1, 1, 1) (Some ''B'')])
       = [''A'', [], ''B'']
   \<and> length (data_vec (inserts one_named_point [Insert (0, 0, 0), InsertNamed (1, 1, 1) (Some ''B'')]))
       = 2"
proof -
  from id_to_name_misaligned [OF sorts_by_key_sort_key sorts_by_key_sort_key]
  have "PointVec_ctor (sort_key fst) (sort_key fst) [(0, 0, 0)] [(''A'', 0)] 1 = Some one_named_point"
    and "id_to_name_map (inserts one_named_point [Insert (0, 0, 0), InsertNamed (1, 1, 1) (Some ''B'')])
       = [''A'', [], ''B'']"
    and "data_vec (inserts one_named_point [Insert (0, 0, 0), InsertNamed (1, 1, 1) (Some ''B'')])
       = [(0, 0, 0), (1, 1, 1)]"
    by blast+
  then show ?thesis by (simp add: sorts_by_key_sort_key)
qed

subsection \<open>makePntsUnique on particular inputs\<close>

text \<open>
  Claim C10. On the empty vector the bound \<^verbatim>\<open>n_pnts_in_file - 1\<close> of the first scan wraps
  around to \<open>2 ^ 64 - 1\<close>, the loop is entered and its first iteration reads the elements 1
  and 0 of the empty vector: the routine does not stay inside its vectors.
\<close>

theorem makePntsUnique_empty_input:
  assumes "sorts_by_key qs"
  shows "size_t_sub (length ([] :: point list)) 1 = 2 ^ 64 - 1
       \<and> vec_at (map fst (qs (zip [] [0..<0]))) (0 + 1) = None
       \<and> makePntsUnique qs qs' [] eps = None"
  by (simp add: makePntsUnique_def sorts_by_key_distinct [OF assms] size_t_sub_def
      find_intervals.simps vec_at_def)

theorem makePntsUnique_empty_input_witness:
  "sorts_by_key (sort_key fst :: (point \<times> nat) list \<Rightarrow> (point \<times> nat) list)
   \<and> makePntsUnique (sort_key fst) (sort_key fst) [] 1 = None"
  using makePntsUnique_empty_input [OF sorts_by_key_sort_key, of "sort_key fst" 1]
  by (simp add: sorts_by_key_sort_key)

text \<open>
  Claim C3. The two points \<open>(1, 0, 0)\<close> and \<open>(0, 0, 0)\<close>, inserted in this order, are within the
  tolerance 1 of each other and are merged. Both indices are mapped to id 0, but the point that
  is kept is \<open>(0, 0, 0)\<close>, the one with the higher insertion index: the bubble sort reorders
  \<open>perm\<close> alone, and the reverse permutation then puts the first point of the sorted run at the
  place of the lowest index.
\<close>

theorem makePntsUnique_keeps_later_point:
  assumes "sorts_by_key qs" "sorts_by_key qs'"
  shows "makePntsUnique qs qs' [(1, 0, 0), (0, 0, 0)] 1 = Some ([(0, 0, 0)], [0, 0])"
  by (simp add: makePntsUnique_def sorts_by_key_distinct [OF assms(1)]
      sorts_by_key_distinct [OF assms(2)] size_t_sub_def loop_simps vec_at_def vec_put_def
      less_eq_prod_def)

theorem makePntsUnique_keeps_later_point_witness:
  "sorts_by_key (sort_key fst :: (point \<times> nat) list \<Rightarrow> (point \<times> nat) list)
   \<and> sorts_by_key (sort_key fst :: (nat \<times> point) list \<Rightarrow> (nat \<times> point) list)
   \<and> makePntsUnique (sort_key fst) (sort_key fst) [(1, 0, 0), (0, 0, 0)] 1
       = Some ([(0, 0, 0)], [0, 0])"
  using makePntsUnique_keeps_later_point [OF sorts_by_key_sort_key sorts_by_key_sort_key]
  by (simp add: sorts_by_key_sort_key)

text \<open>
  Claim C8 (scenario A). For the input \<open>(0, 0, 0)\<close>, \<open>(0, 0, 0.0001)\<close>, \<open>(5, 5, 5)\<close> the diagonal
  of the bounding box is \<open>sqrt 75\<close>. Whenever the relative epsilon makes the tolerance at least
  0.0001 and less than 5 (0.01 is such a value), construction gives two canonical points and the
  id map \<open>[0, 0, 1]\<close>.
\<close>

theorem scenario_A:
  assumes "sorts_by_key qs" "sorts_by_key qs'"
    and "1 / 10000 \<le> eps0 * sqrt 75" "eps0 * sqrt 75 < 5"
  shows "map_option data_vec
           (PointVec_ctor qs qs' [(0, 0, 0), (0, 0, 1 / 10000), (5, 5, 5)] [] eps0)
         = Some [(0, 0, 0), (5, 5, 5)]
       \<and> map_option pnt_id_map
           (PointVec_ctor qs qs' [(0, 0, 0), (0, 0, 1 / 10000), (5, 5, 5)] [] eps0)
         = Some [0, 0, 1]"
  using assms(3,4)
  by (simp add: PointVec_ctor_def makePntsUnique_def sorts_by_key_distinct [OF assms(1)]
      sorts_by_key_distinct [OF assms(2)] size_t_sub_def loop_simps vec_at_def vec_put_def
      less_eq_prod_def correctNameIDMapping_def)

theorem scenario_A_witness:
  "sorts_by_key (sort_key fst :: (point \<times> nat) list \<Rightarrow> (point \<times> nat) list)
   \<and> sorts_by_key (sort_key fst :: (nat \<times> point) list \<Rightarrow> (nat \<times> point) list)
   \<and> (1 / 10000 \<le> 1 / (100 * sqrt 75) * sqrt 75) \<and> (1 / (100 * sqrt 75) * sqrt 75 < 5)
   \<and> map_option data_vec
       (PointVec_ctor (sort_key fst) (sort_key fst) [(0, 0, 0), (0, 0, 1 / 10000), (5, 5, 5)] []
          (1 / (100 * sqrt 75)))
     = Some [(0, 0, 0), (5, 5, 5)]
   \<and> map_option pnt_id_map
       (PointVec_ctor (sort_key fst) (sort_key fst) [(0, 0, 0), (0, 0, 1 / 10000), (5, 5, 5)] []
          (1 / (100 * sqrt 75)))
     = Some [0, 0, 1]"
proof -
  have h3: "1 / 10000 \<le> 1 / (100 * sqrt 75) * sqrt 75"
    and h4: "1 / (100 * sqrt 75) * sqrt 75 < 5"
    by simp_all
  from scenario_A [OF sorts_by_key_sort_key sorts_by_key_sort_key h3 h4] h3 h4
  show ?thesis by (simp add: sorts_by_key_sort_key)
qed

end
